theory Spec2Isabelle
  imports Main "HOL-Library.Extended_Nat"
begin

section \<open>Data model of astar.py\<close>

text \<open>
  The enum \<open>NodeType\<close> of the source. A \<open>Node\<close> object is created once per character of
  the map file, at \<open>level[row][col]\<close>, and is never copied or replaced, so a node is
  identified by its position \<open>(row, col)\<close>. The only attribute of a node that the search
  reads or writes is \<open>type\<close> (\<open>color\<close> is set together with it by every setter, and
  \<open>x\<close>, \<open>y\<close>, \<open>width\<close> are used by drawing alone), so the level is the grid of the
  nodes' types. \<open>totalRows\<close>, \<open>totalCols\<close> are the same for every node and are
  passed along as \<open>tr\<close>, \<open>tc\<close>.
\<close>

datatype NodeType = CLOSED | OPEN | UNVISITED | OBSTACLE | PATH | START | GOAL

type_synonym pos = "nat \<times> nat"

type_synonym grid = "NodeType list list"

text \<open>\<open>level[r][c]\<close> for indices that are not negative: an \<open>IndexError\<close> is \<open>None\<close>.\<close>

definition node_at :: "grid \<Rightarrow> nat \<Rightarrow> nat \<Rightarrow> NodeType option" where
  "node_at level r c =
     (if r < length level \<and> c < length (level ! r) then Some (level ! r ! c) else None)"

text \<open>The attribute \<open>type\<close> of the node at a position, and the setters' write to it.\<close>

definition type_of :: "grid \<Rightarrow> pos \<Rightarrow> NodeType" where
  "type_of level p = (case p of (r, c) \<Rightarrow> level ! r ! c)"

definition set_type :: "grid \<Rightarrow> pos \<Rightarrow> NodeType \<Rightarrow> grid" where
  "set_type level p t = (case p of (r, c) \<Rightarrow> level[r := (level ! r)[c := t]])"

section \<open>Node.update_neighbors\<close>

text \<open>
  One of the four tests of \<open>update_neighbors\<close>: when the bounds guard holds, the node at
  \<open>(r, c)\<close> is read (an \<open>IndexError\<close> is \<open>None\<close>) and appended unless it is an obstacle.
\<close>

definition look :: "grid \<Rightarrow> bool \<Rightarrow> nat \<Rightarrow> nat \<Rightarrow> pos list \<Rightarrow> pos list option" where
  "look level guard r c acc =
     (if guard then
        (case node_at level r c of
           None \<Rightarrow> None
         | Some t \<Rightarrow> Some (if t \<noteq> OBSTACLE then acc @ [(r, c)] else acc))
      else Some acc)"

text \<open>
  The tests run in order inside one \<open>try\<close>; the bare \<open>except\<close> ends the method at the
  first \<open>IndexError\<close> and keeps the neighbours found so far.
\<close>

fun looks :: "grid \<Rightarrow> (bool \<times> nat \<times> nat) list \<Rightarrow> pos list \<Rightarrow> pos list" where
  "looks level [] acc = acc"
| "looks level ((guard, r, c) # rest) acc =
     (case look level guard r c acc of
        None \<Rightarrow> acc
      | Some acc' \<Rightarrow> looks level rest acc')"

text \<open>
  Up, down, left, right. \<open>row < totalRows - 1\<close> on Python's integers is
  \<open>row + 1 < tr\<close>.
\<close>

definition update_neighbors :: "grid \<Rightarrow> nat \<Rightarrow> nat \<Rightarrow> pos \<Rightarrow> pos list" where
  "update_neighbors level tr tc p =
     (case p of (row, col) \<Rightarrow>
        looks level
          [(row > 0, row - 1, col),
           (row + 1 < tr, row + 1, col),
           (col > 0, row, col - 1),
           (col + 1 < tc, row, col + 1)] [])"

section \<open>The heuristic\<close>

definition h :: "pos \<Rightarrow> pos \<Rightarrow> nat" where
  "h node1 node2 =
     (case node1 of (x1, y1) \<Rightarrow> case node2 of (x2, y2) \<Rightarrow>
        nat \<bar>int x2 - int x1\<bar> + nat \<bar>int y2 - int y1\<bar>)"

section \<open>The state of find_path\<close>

text \<open>
  An entry of the priority queue is the tuple \<open>(priority, count, node)\<close>. Scores are
  Python integers or \<open>float("inf")\<close>: \<open>enat\<close>. \<open>frames\<close> records the level at every call
  of the \<open>draw\<close> callback, which is all the callback observes.
\<close>

type_synonym entry = "enat \<times> nat \<times> pos"

record search =
  level :: grid
  openNodes :: "entry list"
  came_from :: "pos \<rightharpoonup> pos"
  gScore :: "pos \<Rightarrow> enat"
  fScore :: "pos \<Rightarrow> enat"
  openNodesHash :: "pos set"
  count :: nat
  visualize :: bool
  frames :: "grid list"

definition prio :: "entry \<Rightarrow> enat" where
  "prio e = fst e"

definition order :: "entry \<Rightarrow> nat" where
  "order e = fst (snd e)"

definition node :: "entry \<Rightarrow> pos" where
  "node e = snd (snd e)"

text \<open>
  \<open>PriorityQueue.get\<close> returns the least tuple. Tuples compare by priority, then by
  count; the node would be compared (and Python would raise, \<open>Node\<close> has no order) only
  between two entries of equal priority and equal count.
\<close>

definition entry_less :: "entry \<Rightarrow> entry \<Rightarrow> bool" where
  "entry_less a b = (prio a < prio b \<or> (prio a = prio b \<and> order a < order b))"

fun pq_min :: "entry \<Rightarrow> entry list \<Rightarrow> entry" where
  "pq_min m [] = m"
| "pq_min m (e # es) = pq_min (if entry_less e m then e else m) es"

definition put :: "entry \<Rightarrow> entry list \<Rightarrow> entry list" where
  "put e q = q @ [e]"

definition get :: "entry list \<Rightarrow> (entry \<times> entry list) option" where
  "get q = (case q of [] \<Rightarrow> None | e # es \<Rightarrow> (let m = pq_min e es in Some (m, remove1 m q)))"

section \<open>pygame events\<close>

datatype key = K_SPACE | K_ESCAPE | K_OTHER

datatype event = QUIT | KEYDOWN key | OTHER_EVENT

text \<open>
  The \<open>for event in pygame.event.get()\<close> loop at the top of every iteration: \<open>None\<close> is
  \<open>exit()\<close>, otherwise the new value of \<open>visualize\<close>.
\<close>

fun poll :: "event list \<Rightarrow> bool \<Rightarrow> bool option" where
  "poll [] v = Some v"
| "poll (QUIT # es) v = None"
| "poll (KEYDOWN K_SPACE # es) v = poll es False"
| "poll (KEYDOWN K_ESCAPE # es) v = None"
| "poll (KEYDOWN K_OTHER # es) v = poll es v"
| "poll (OTHER_EVENT # es) v = poll es v"

section \<open>reconstruct_path\<close>

text \<open>
  The walk along \<open>cameFrom\<close>. The state is the level, the frames drawn, and the list of
  the nodes visited, which starts as \<open>[goal]\<close> and gets every new \<open>current\<close> in front: the
  source returns no sequence, this list is the path it marks, from its last node to the
  goal. The loop runs for as long as \<open>current in cameFrom\<close>, so the walk may not return.
\<close>

text \<open>The body of the loop marks the new \<open>current\<close> unless it is a start or a goal.\<close>

definition mark :: "grid \<Rightarrow> pos \<Rightarrow> grid" where
  "mark lvl c =
     (if type_of lvl c \<noteq> START \<and> type_of lvl c \<noteq> GOAL then set_type lvl c PATH else lvl)"

partial_function (option) reconstruct_path ::
  "(pos \<rightharpoonup> pos) \<Rightarrow> pos \<Rightarrow> grid \<times> grid list \<times> pos list \<Rightarrow> (grid \<times> grid list \<times> pos list) option" where
  "reconstruct_path cameFrom current st =
     (case cameFrom current of
        None \<Rightarrow> Some st
      | Some c \<Rightarrow>
          (case st of (lvl, fr, path) \<Rightarrow>
             reconstruct_path cameFrom c (mark lvl c, fr @ [mark lvl c], c # path)))"

declare reconstruct_path.simps [code]

section \<open>find_path\<close>

definition init :: "grid \<Rightarrow> pos \<Rightarrow> pos \<Rightarrow> search" where
  "init lv start goal =
     \<lparr> level = lv,
       openNodes = put (0, 0, start) [],
       came_from = Map.empty,
       gScore = (\<lambda>_. \<infinity>)(start := 0),
       fScore = (\<lambda>_. \<infinity>)(start := enat (h start goal)),
       openNodesHash = {start},
       count = 0,
       visualize = True,
       frames = [] \<rparr>"

text \<open>The body of \<open>for neighbor in current.neighbors\<close>.\<close>

definition relax :: "pos \<Rightarrow> pos \<Rightarrow> search \<Rightarrow> pos \<Rightarrow> search" where
  "relax goal current s neighbor =
     (let neighborGScore = gScore s current + 1 in
      if neighborGScore < gScore s neighbor then
        (let s1 = s\<lparr> came_from := (came_from s)(neighbor \<mapsto> current),
                     gScore := (gScore s)(neighbor := neighborGScore),
                     fScore := (fScore s)(neighbor := neighborGScore + enat (h neighbor goal)) \<rparr>
         in if neighbor \<notin> openNodesHash s1 then
              s1\<lparr> count := count s1 + 1,
                  openNodes := put (fScore s1 neighbor, count s1 + 1, neighbor) (openNodes s1),
                  openNodesHash := insert neighbor (openNodesHash s1),
                  level := set_type (level s1) neighbor OPEN \<rparr>
            else s1)
      else s)"

text \<open>
  How a call ends: \<open>return True\<close> (with the final state and the path marked),
  \<open>return False\<close>, \<open>exit()\<close> from the event loop, or the \<open>KeyError\<close> of
  \<open>openNodesHash.remove\<close>.
\<close>

datatype outcome = Return_True search "pos list" | Return_False search | Exit | KeyError

datatype progress = Continue search | Finish "outcome option"

text \<open>A call of the \<open>draw\<close> callback: the level as it is now is recorded.\<close>

definition draw :: "search \<Rightarrow> search" where
  "draw s = s\<lparr> frames := frames s @ [level s] \<rparr>"

text \<open>
  The branch \<open>current == goal\<close>: \<open>set_goal\<close>, then \<open>reconstruct_path\<close>, then
  \<open>return True\<close>. \<open>None\<close>: \<open>reconstruct_path\<close> does not return.
\<close>

definition found :: "pos \<Rightarrow> search \<Rightarrow> outcome option" where
  "found goal s =
     (case reconstruct_path (came_from s) goal (set_type (level s) goal GOAL, frames s, [goal]) of
        None \<Rightarrow> None
      | Some (lvl, fr, path) \<Rightarrow> Some (Return_True (s\<lparr> level := lvl, frames := fr \<rparr>) path))"

text \<open>
  The rest of an iteration once \<open>current\<close> is known not to be the goal: the loop over
  \<open>current.neighbors\<close>, the list that \<open>update_neighbors\<close> computed on the level \<open>lv\<close>
  before the search (\<open>main\<close> calls it for every node right before \<open>find_path\<close>), then
  \<open>draw\<close> when \<open>visualize\<close> is set, then \<open>set_closed\<close> unless \<open>current\<close> is the start.
\<close>

definition expand :: "grid \<Rightarrow> nat \<Rightarrow> nat \<Rightarrow> pos \<Rightarrow> pos \<Rightarrow> pos \<Rightarrow> search \<Rightarrow> search" where
  "expand lv tr tc start goal current s1 =
     (let s2 = foldl (relax goal current) s1 (update_neighbors lv tr tc current);
          s3 = (if visualize s2 then draw s2 else s2)
      in if current \<noteq> start
         then s3\<lparr> level := set_type (level s3) current CLOSED \<rparr> else s3)"

text \<open>
  One iteration of \<open>while not openNodes.empty()\<close>: the events, \<open>get\<close>, the removal from
  \<open>openNodesHash\<close>, the goal test.
\<close>

definition step ::
  "grid \<Rightarrow> nat \<Rightarrow> nat \<Rightarrow> pos \<Rightarrow> pos \<Rightarrow> event list \<Rightarrow> search \<Rightarrow> progress" where
  "step lv tr tc start goal evs s =
     (case get (openNodes s) of
        None \<Rightarrow> Finish (Some (Return_False s))
      | Some (e, q) \<Rightarrow>
     (case poll evs (visualize s) of
        None \<Rightarrow> Finish (Some Exit)
      | Some v \<Rightarrow>
     (let current = node e in
      if current \<notin> openNodesHash s then Finish (Some KeyError)
      else
        (let s1 = s\<lparr> visualize := v, openNodes := q,
                     openNodesHash := openNodesHash s - {current} \<rparr>
         in if current = goal then Finish (found goal s1)
            else Continue (expand lv tr tc start goal current s1)))))"

text \<open>
  The loop. The events of iteration \<open>k\<close> are the \<open>k\<close>-th element of \<open>evs\<close>
  (no events once the list is used up).
\<close>

function find_loop ::
  "grid \<Rightarrow> nat \<Rightarrow> nat \<Rightarrow> pos \<Rightarrow> pos \<Rightarrow> event list list \<Rightarrow> search \<Rightarrow> outcome option" where
  "find_loop lv tr tc start goal evs s =
     (case step lv tr tc start goal (case evs of [] \<Rightarrow> [] | e # _ \<Rightarrow> e) s of
        Finish r \<Rightarrow> r
      | Continue s' \<Rightarrow> find_loop lv tr tc start goal (tl evs) s')"
  by pat_completeness auto

definition find_path ::
  "grid \<Rightarrow> nat \<Rightarrow> nat \<Rightarrow> pos \<Rightarrow> pos \<Rightarrow> event list list \<Rightarrow> outcome option" where
  "find_path lv tr tc start goal evs = find_loop lv tr tc start goal evs (init lv start goal)"

text \<open>No event list of the run asks for \<open>exit()\<close>.\<close>

definition no_exit :: "event list list \<Rightarrow> bool" where
  "no_exit evs = (\<forall>es \<in> set evs. poll es True \<noteq> None)"

text \<open>The states at the head of the loop, over all runs of events.\<close>

inductive reachable :: "grid \<Rightarrow> nat \<Rightarrow> nat \<Rightarrow> pos \<Rightarrow> pos \<Rightarrow> search \<Rightarrow> bool"
  for lv tr tc start goal where
  reach_init: "reachable lv tr tc start goal (init lv start goal)"
| reach_step: "reachable lv tr tc start goal s \<Longrightarrow>
     step lv tr tc start goal evs s = Continue s' \<Longrightarrow> reachable lv tr tc start goal s'"

section \<open>make_level\<close>

definition ROW_LIMIT :: nat where
  "ROW_LIMIT = 100"

definition COL_LIMIT :: nat where
  "COL_LIMIT = 100"

text \<open>
  \<open>exit()\<close> raises \<open>SystemExit\<close>; reading \<open>j\<close> after a loop that never ran raises
  \<open>UnboundLocalError\<close>.
\<close>

datatype error = SystemExit | UnboundLocalError

text \<open>
  The lines a text file yields when iterated: each ends with its newline, the last one
  may lack it, none is empty. The argument is the text of the file as Python decodes
  it.
\<close>

fun file_lines :: "string \<Rightarrow> string list" where
  "file_lines [] = []"
| "file_lines (c # cs) =
     (if c = CHR 0x0A then [c] # file_lines cs
      else (case file_lines cs of [] \<Rightarrow> [[c]] | l # ls \<Rightarrow> (c # l) # ls))"

text \<open>The \<open>if\<close>/\<open>elif\<close> chain on a character: the node's type, or \<open>None\<close> for the \<open>else\<close>.\<close>

definition classify :: "char \<Rightarrow> NodeType option" where
  "classify ch =
     (if ch = CHR ''#'' then Some OBSTACLE
      else if ch = CHR ''S'' then Some START
      else if ch = CHR ''G'' then Some GOAL
      else if ch = CHR ''.'' \<or> ch = CHR 0x0A then Some UNVISITED
      else None)"

text \<open>The inner loop over the characters of line \<open>i\<close>, from column \<open>j\<close> on.\<close>

fun make_row ::
  "nat \<Rightarrow> nat \<Rightarrow> string \<Rightarrow> NodeType list \<times> pos option \<times> pos option \<Rightarrow>
   error + NodeType list \<times> pos option \<times> pos option" where
  "make_row i j [] acc = Inr acc"
| "make_row i j (ch # cs) (row, start, goal) =
     (case classify ch of
        None \<Rightarrow> Inl SystemExit
      | Some t \<Rightarrow>
          if j > COL_LIMIT then Inl SystemExit
          else make_row i (j + 1) cs
                 (row @ [t],
                  if t = START then Some (i, j) else start,
                  if t = GOAL then Some (i, j) else goal))"

text \<open>The outer loop over the lines, from line \<open>i\<close> on.\<close>

fun make_rows ::
  "nat \<Rightarrow> string list \<Rightarrow> grid \<times> pos option \<times> pos option \<Rightarrow>
   error + grid \<times> pos option \<times> pos option" where
  "make_rows i [] acc = Inr acc"
| "make_rows i (l # ls) (lvl, start, goal) =
     (case make_row i 0 l ([], start, goal) of
        Inl e \<Rightarrow> Inl e
      | Inr (row, start', goal') \<Rightarrow>
          if i > ROW_LIMIT then Inl SystemExit
          else make_rows (i + 1) ls (lvl @ [row], start', goal'))"

text \<open>
  What \<open>make_level\<close> returns and leaves in \<open>size\<close>: the level, \<open>start\<close> and \<open>goal\<close>
  (\<open>None\<close> when the file has no such cell, the last one when it has several),
  \<open>size["rows"]\<close> and \<open>size["cols"]\<close>, which become every node's \<open>totalRows\<close> and
  \<open>totalCols\<close>.
\<close>

record built =
  b_level :: grid
  b_start :: "pos option"
  b_goal :: "pos option"
  b_rows :: nat
  b_cols :: nat

definition make_level :: "string \<Rightarrow> error + built" where
  "make_level content =
     (let ls = file_lines content in
      case make_rows 0 ls ([], None, None) of
        Inl e \<Rightarrow> Inl e
      | Inr (lvl, start, goal) \<Rightarrow>
          if ls = [] then Inl UnboundLocalError
          else Inr \<lparr> b_level = lvl, b_start = start, b_goal = goal,
                     b_rows = length ls, b_cols = length (last ls) \<rparr>)"

section \<open>Notions used by the properties\<close>

text \<open>The positions that hold a node of the level.\<close>

definition nodes :: "grid \<Rightarrow> pos set" where
  "nodes lv = {(r, c). r < length lv \<and> c < length (lv ! r)}"

text \<open>Two positions are 4-adjacent.\<close>

definition adjacent :: "pos \<Rightarrow> pos \<Rightarrow> bool" where
  "adjacent a b =
     (case a of (r, c) \<Rightarrow> case b of (r', c') \<Rightarrow>
        (c = c' \<and> (r = r' + 1 \<or> r' = r + 1)) \<or> (r = r' \<and> (c = c' + 1 \<or> c' = c + 1)))"

text \<open>
  The termination measure of the loop: the number of nodes whose \<open>gScore\<close> is infinite,
  then the sum of the finite scores, then the length of the queue.
\<close>

definition inf_count :: "grid \<Rightarrow> (pos \<Rightarrow> enat) \<Rightarrow> nat" where
  "inf_count lv g = card {p \<in> nodes lv. g p = \<infinity>}"

definition fin_sum :: "grid \<Rightarrow> (pos \<Rightarrow> enat) \<Rightarrow> nat" where
  "fin_sum lv g = (\<Sum>p \<in> nodes lv. case g p of enat n \<Rightarrow> n | \<infinity> \<Rightarrow> 0)"

text \<open>A level of one row: start, a free cell, goal.\<close>

definition grid_line :: grid where
  "grid_line = [[START, UNVISITED, GOAL]]"

text \<open>
  The queue and the set hold the same nodes, each once, and the queue lists its entries
  in the order of their pushes, with strictly increasing counts up to the counter.
\<close>

definition queue_inv :: "search \<Rightarrow> bool" where
  "queue_inv s =
     (node ` set (openNodes s) = openNodesHash s \<and>
      distinct (map node (openNodes s)) \<and>
      sorted_wrt (<) (map order (openNodes s)) \<and>
      (\<forall>e \<in> set (openNodes s). order e \<le> count s))"

text \<open>A level of two rows, start and goal in opposite corners, and its state after the
  first iteration of the loop.\<close>

definition grid_square :: grid where
  "grid_square = [[START, UNVISITED], [UNVISITED, GOAL]]"

definition square_s1 :: search where
  "square_s1 = expand grid_square 2 2 (0, 0) (1, 1) (0, 0)
     ((init grid_square (0, 0) (1, 1))\<lparr> visualize := True, openNodes := [], openNodesHash := {} \<rparr>)"

text \<open>
  The scores and the predecessor map: the start has score \<open>0\<close> and no predecessor; a
  node's predecessor has a score smaller by at least one, and the node is one of the
  predecessor's neighbours; every node with a finite score other than the start has a
  predecessor; the nodes of \<open>openNodesHash\<close> have finite scores.
\<close>

definition score_inv :: "grid \<Rightarrow> nat \<Rightarrow> nat \<Rightarrow> pos \<Rightarrow> search \<Rightarrow> bool" where
  "score_inv lv tr tc start s =
     (gScore s start = 0 \<and> came_from s start = None \<and>
      (\<forall>n c. came_from s n = Some c \<longrightarrow>
         gScore s c + 1 \<le> gScore s n \<and> gScore s n < \<infinity> \<and>
         n \<in> set (update_neighbors lv tr tc c)) \<and>
      (\<forall>n. gScore s n < \<infinity> \<longrightarrow> n = start \<or> came_from s n \<noteq> None) \<and>
      (\<forall>n \<in> openNodesHash s. gScore s n < \<infinity>))"

text \<open>
  What the search keeps of the level \<open>lv\<close> it started on: the shape, the obstacles,
  and the type of the start node (which \<open>set_goal\<close> changes when start and goal are
  the same node). A node is free when it is the start or a node of the level that is
  not an obstacle.
\<close>

definition level_ok :: "grid \<Rightarrow> pos \<Rightarrow> pos \<Rightarrow> grid \<Rightarrow> bool" where
  "level_ok lv start goal g =
     (map length g = map length lv \<and>
      (\<forall>p \<in> nodes lv. type_of lv p = OBSTACLE \<longrightarrow> type_of g p = OBSTACLE) \<and>
      (type_of g start = START \<or> (start = goal \<and> type_of g start = GOAL)))"

definition level_inv :: "grid \<Rightarrow> pos \<Rightarrow> pos \<Rightarrow> search \<Rightarrow> bool" where
  "level_inv lv start goal s =
     (level_ok lv start goal (level s) \<and> (\<forall>g \<in> set (frames s). level_ok lv start goal g))"

definition free :: "grid \<Rightarrow> pos \<Rightarrow> pos \<Rightarrow> bool" where
  "free lv start p = (p = start \<or> (p \<in> nodes lv \<and> type_of lv p \<noteq> OBSTACLE))"

text \<open>A level with an obstacle next to the start.\<close>

definition grid_wall :: grid where
  "grid_wall = [[START, OBSTACLE], [UNVISITED, GOAL]]"

text \<open>The level a call ends with, when it returns.\<close>

definition final_level :: "outcome option \<Rightarrow> grid option" where
  "final_level r =
     (case r of
        Some (Return_True s p) \<Rightarrow> Some (level s)
      | Some (Return_False s) \<Rightarrow> Some (level s)
      | _ \<Rightarrow> None)"

text \<open>
  The marks of the search, outside a set \<open>X\<close> of nodes being expanded: the level has
  the shape of \<open>lv\<close>, no node of \<open>X\<close> is in \<open>openNodesHash\<close>, a node with a finite
  score other than the start is \<open>OPEN\<close> while it is in \<open>openNodesHash\<close> and \<open>CLOSED\<close>
  once it is not, and every neighbour of a scored node outside \<open>openNodesHash\<close> has a
  finite score.
\<close>

definition closed_inv :: "grid \<Rightarrow> nat \<Rightarrow> nat \<Rightarrow> pos \<Rightarrow> pos set \<Rightarrow> search \<Rightarrow> bool" where
  "closed_inv lv tr tc start X s =
     (map length (level s) = map length lv \<and>
      X \<inter> openNodesHash s = {} \<and>
      (\<forall>n. gScore s n < \<infinity> \<and> n \<noteq> start \<and> n \<notin> X \<longrightarrow>
         type_of (level s) n = (if n \<in> openNodesHash s then OPEN else CLOSED)) \<and>
      (\<forall>n. gScore s n < \<infinity> \<and> n \<notin> openNodesHash s \<and> n \<notin> X \<longrightarrow>
         (\<forall>m \<in> set (update_neighbors lv tr tc n). gScore s m < \<infinity>)))"

text \<open>
  A level is rectangular for \<open>totalRows\<close>, \<open>totalCols\<close> when it has that many rows and
  each row has that many nodes. One step of a 4-connected walk enters an adjacent node
  of the level that is not an obstacle; \<open>connected\<close> is reachability by such steps.
\<close>

definition rectangular :: "grid \<Rightarrow> nat \<Rightarrow> nat \<Rightarrow> bool" where
  "rectangular lv tr tc = (length lv = tr \<and> (\<forall>row \<in> set lv. length row = tc))"

definition passable_step :: "grid \<Rightarrow> pos \<Rightarrow> pos \<Rightarrow> bool" where
  "passable_step lv a b = (adjacent a b \<and> b \<in> nodes lv \<and> type_of lv b \<noteq> OBSTACLE)"

definition connected :: "grid \<Rightarrow> pos \<Rightarrow> pos \<Rightarrow> bool" where
  "connected lv a b = (passable_step lv)\<^sup>*\<^sup>* a b"

text \<open>A level of one row whose goal is walled off: a free cell, the start, an obstacle,
  the goal.\<close>

definition grid_blocked :: grid where
  "grid_blocked = [[UNVISITED, START, OBSTACLE, GOAL]]"

text \<open>The path a call returns with, when it returns \<open>True\<close>.\<close>

definition returned_path :: "outcome option \<Rightarrow> pos list option" where
  "returned_path r = (case r of Some (Return_True s p) \<Rightarrow> Some p | _ \<Rightarrow> None)"

text \<open>
  A map of four lines whose last column is a wall, so that the cells \<open>make_level\<close>
  creates for the newlines are cut off; the level \<open>make_level\<close> builds from it; the path
  \<open>find_path\<close> marks on it; and a shorter walk from its start to its goal.
\<close>

definition maze_text :: string where
  "maze_text =
     ''......###'' @ [CHR 0x0A] @
     ''S#..#...#'' @ [CHR 0x0A] @
     ''...##.#.#'' @ [CHR 0x0A] @
     ''##....#G#'' @ [CHR 0x0A]"

definition maze :: grid where
  "maze =
     [[UNVISITED, UNVISITED, UNVISITED, UNVISITED, UNVISITED, UNVISITED, OBSTACLE, OBSTACLE, OBSTACLE, UNVISITED],
      [START, OBSTACLE, UNVISITED, UNVISITED, OBSTACLE, UNVISITED, UNVISITED, UNVISITED, OBSTACLE, UNVISITED],
      [UNVISITED, UNVISITED, UNVISITED, OBSTACLE, OBSTACLE, UNVISITED, OBSTACLE, UNVISITED, OBSTACLE, UNVISITED],
      [OBSTACLE, OBSTACLE, UNVISITED, UNVISITED, UNVISITED, UNVISITED, OBSTACLE, GOAL, OBSTACLE, UNVISITED]]"

definition maze_path :: "pos list" where
  "maze_path =
     [(1, 0), (2, 0), (2, 1), (2, 2), (3, 2), (3, 3), (3, 4), (3, 5), (2, 5), (1, 5), (1, 6),
      (1, 7), (2, 7), (3, 7)]"

definition maze_walk :: "pos list" where
  "maze_walk =
     [(1, 0), (0, 0), (0, 1), (0, 2), (0, 3), (0, 4), (0, 5), (1, 5), (1, 6), (1, 7), (2, 7),
      (3, 7)]"

section \<open>Termination of the search loop\<close>

lemma finite_nodes: "finite (nodes lv)"
proof -
  have "nodes lv = (\<Union>r\<in>{..<length lv}. (\<lambda>c. (r, c)) ` {..<length (lv ! r)})"
    by (auto simp: nodes_def)
  then show ?thesis by simp
qed

lemma looks_sound:
  "n \<in> set (looks lv tests acc) \<Longrightarrow>
   n \<in> set acc \<or> (\<exists>g r c t. (g, r, c) \<in> set tests \<and> g \<and> n = (r, c) \<and>
                      node_at lv r c = Some t \<and> t \<noteq> OBSTACLE)"
proof (induction lv tests acc rule: looks.induct)
  case (1 level acc)
  then show ?case by simp
next
  case (2 level guard r c rest acc)
  show ?case
  proof (cases "look level guard r c acc")
    case None
    with 2 show ?thesis by simp
  next
    case (Some acc')
    with 2 have "n \<in> set acc' \<or> (\<exists>g r c t. (g, r, c) \<in> set rest \<and> g \<and> n = (r, c) \<and>
                      node_at level r c = Some t \<and> t \<noteq> OBSTACLE)" by simp
    moreover have "n \<in> set acc' \<Longrightarrow> n \<in> set acc \<or> (guard \<and> n = (r, c) \<and> (\<exists>t. node_at level r c = Some t \<and> t \<noteq> OBSTACLE))"
      using Some by (auto simp: look_def split: if_splits option.splits)
    ultimately show ?thesis by auto
  qed
qed

lemma update_neighbors_sound:
  assumes "n \<in> set (update_neighbors lv tr tc p)"
  shows "adjacent p n \<and> (\<exists>t. node_at lv (fst n) (snd n) = Some t \<and> t \<noteq> OBSTACLE)"
proof -
  obtain row col where p: "p = (row, col)" by (cases p)
  let ?tests = "[(row > 0, row - 1, col), (row + 1 < tr, row + 1, col),
           (col > 0, row, col - 1), (col + 1 < tc, row, col + 1)]"
  from assms have "n \<in> set (looks lv ?tests [])"
    by (simp add: update_neighbors_def p)
  from looks_sound[OF this] obtain g r c t where
    *: "(g, r, c) \<in> set ?tests" "g" "n = (r, c)" "node_at lv r c = Some t" "t \<noteq> OBSTACLE"
    by auto
  from *(1,2) have "adjacent (row, col) (r, c)"
    by (auto simp: adjacent_def)
  with * p show ?thesis by simp
qed

lemma update_neighbors_nodes: "n \<in> set (update_neighbors lv tr tc p) \<Longrightarrow> n \<in> nodes lv"
  by (drule update_neighbors_sound) (auto simp: nodes_def node_at_def split: if_splits)

lemma potential_decreases:
  assumes le: "\<And>p. g' p \<le> g p" and lt: "p \<in> nodes lv" "g' p < g p"
  shows "inf_count lv g' < inf_count lv g \<or>
         (inf_count lv g' = inf_count lv g \<and> fin_sum lv g' < fin_sum lv g)"
proof -
  let ?I = "{p \<in> nodes lv. g p = \<infinity>}" and ?I' = "{p \<in> nodes lv. g' p = \<infinity>}"
  have sub: "?I' \<subseteq> ?I" using le by (auto simp: top_unique[symmetric] dest!: spec) (metis enat_ord_simps(5))
  have fin: "finite ?I" using finite_nodes by simp
  show ?thesis
  proof (cases "?I' = ?I")
    case False
    with sub have "?I' \<subset> ?I" by blast
    then have "card ?I' < card ?I" using fin by (rule psubset_card_mono[rotated])
    then show ?thesis by (simp add: inf_count_def)
  next
    case True
    let ?w = "\<lambda>g p. case g p of enat n \<Rightarrow> n | \<infinity> \<Rightarrow> (0::nat)"
    have same: "\<And>q. q \<in> nodes lv \<Longrightarrow> g q = \<infinity> \<longleftrightarrow> g' q = \<infinity>" using True by blast
    have "\<And>q. q \<in> nodes lv \<Longrightarrow> ?w g' q \<le> ?w g q"
      using le same by (auto split: enat.splits) (metis enat_ord_simps(1))
    moreover have "?w g' p < ?w g p"
      using lt same[OF lt(1)] by (auto split: enat.splits)
    ultimately have "(\<Sum>q\<in>nodes lv. ?w g' q) < (\<Sum>q\<in>nodes lv. ?w g q)"
      using lt(1) finite_nodes by (intro sum_strict_mono_ex1) auto
    with True show ?thesis by (simp add: inf_count_def fin_sum_def)
  qed
qed

lemma relax_cases:
  "relax goal cur s n = s \<or>
   (gScore (relax goal cur s n) = (gScore s)(n := gScore s cur + 1) \<and> gScore s cur + 1 < gScore s n)"
  by (simp add: relax_def Let_def)

lemma foldl_relax_gScore:
  "set ns \<subseteq> nodes lv \<Longrightarrow>
   (\<forall>p. gScore (foldl (relax goal cur) s ns) p \<le> gScore s p) \<and>
   (foldl (relax goal cur) s ns = s \<or>
    (\<exists>p \<in> nodes lv. gScore (foldl (relax goal cur) s ns) p < gScore s p))"
proof (induction ns arbitrary: s)
  case Nil
  then show ?case by simp
next
  case (Cons n ns)
  let ?s1 = "relax goal cur s n" and ?s' = "foldl (relax goal cur) (relax goal cur s n) ns"
  from Cons have ih: "\<forall>p. gScore ?s' p \<le> gScore ?s1 p"
    "?s' = ?s1 \<or> (\<exists>p \<in> nodes lv. gScore ?s' p < gScore ?s1 p)" and n: "n \<in> nodes lv"
    by auto
  have s1: "\<forall>p. gScore ?s1 p \<le> gScore s p"
    using relax_cases[of goal cur s n] by auto
  have le: "\<forall>p. gScore ?s' p \<le> gScore s p"
    using ih(1) s1 order_trans by blast
  have "?s' = s \<or> (\<exists>p \<in> nodes lv. gScore ?s' p < gScore s p)"
  proof (cases "?s1 = s")
    case True
    with ih(2) show ?thesis by simp
  next
    case False
    with relax_cases[of goal cur s n] have "gScore ?s1 n < gScore s n" by auto
    with ih(1) have "gScore ?s' n < gScore s n" using le_less_trans by blast
    with n show ?thesis by blast
  qed
  with le show ?case by simp
qed

lemma pq_min_mem: "pq_min m es \<in> set (m # es)"
  by (induction es arbitrary: m) auto

lemma get_length: "get q = Some (e, q') \<Longrightarrow> e \<in> set q \<and> q' = remove1 e q \<and> Suc (length q') = length q"
proof -
  assume a: "get q = Some (e, q')"
  then obtain x xs where q: "q = x # xs" by (cases q) (auto simp: get_def)
  with a have e: "e = pq_min x xs" "q' = remove1 e q" by (auto simp: get_def Let_def)
  with pq_min_mem[of x xs] q have "e \<in> set q" by simp
  with e show ?thesis using length_pos_if_in_set[of e q] by (simp add: length_remove1)
qed

lemma step_Continue:
  assumes "step lv tr tc start goal evs s = Continue s'"
  obtains e q v where
    "get (openNodes s) = Some (e, q)" "poll evs (visualize s) = Some v"
    "node e \<in> openNodesHash s" "node e \<noteq> goal"
    "s' = expand lv tr tc start goal (node e)
        (s\<lparr> visualize := v, openNodes := q, openNodesHash := openNodesHash s - {node e} \<rparr>)"
  using assms unfolding step_def
  by (auto simp: Let_def split: option.splits if_splits prod.splits)

lemma expand_fields:
  "gScore (expand lv tr tc start goal cur s) =
     gScore (foldl (relax goal cur) s (update_neighbors lv tr tc cur))"
  "openNodes (expand lv tr tc start goal cur s) =
     openNodes (foldl (relax goal cur) s (update_neighbors lv tr tc cur))"
  "came_from (expand lv tr tc start goal cur s) =
     came_from (foldl (relax goal cur) s (update_neighbors lv tr tc cur))"
  "openNodesHash (expand lv tr tc start goal cur s) =
     openNodesHash (foldl (relax goal cur) s (update_neighbors lv tr tc cur))"
  "count (expand lv tr tc start goal cur s) =
     count (foldl (relax goal cur) s (update_neighbors lv tr tc cur))"
  by (simp_all add: expand_def Let_def draw_def)

lemma step_decreases:
  assumes "step lv tr tc start goal evs s = Continue s'"
  shows "inf_count lv (gScore s') < inf_count lv (gScore s) \<or>
         (inf_count lv (gScore s') = inf_count lv (gScore s) \<and>
          (fin_sum lv (gScore s') < fin_sum lv (gScore s) \<or>
           (fin_sum lv (gScore s') = fin_sum lv (gScore s) \<and>
            length (openNodes s') < length (openNodes s))))"
proof -
  from assms obtain e q v where
    g: "get (openNodes s) = Some (e, q)" and
    s': "s' = expand lv tr tc start goal (node e)
        (s\<lparr> visualize := v, openNodes := q, openNodesHash := openNodesHash s - {node e} \<rparr>)"
    by (rule step_Continue)
  let ?s1 = "s\<lparr> visualize := v, openNodes := q, openNodesHash := openNodesHash s - {node e} \<rparr>"
  let ?s2 = "foldl (relax goal (node e)) ?s1 (update_neighbors lv tr tc (node e))"
  from s' have gs: "gScore s' = gScore ?s2" and os: "openNodes s' = openNodes ?s2"
    by (simp_all add: expand_fields)
  have sub: "set (update_neighbors lv tr tc (node e)) \<subseteq> nodes lv"
    using update_neighbors_nodes by blast
  from foldl_relax_gScore[OF sub, of goal "node e" ?s1]
  have le: "\<And>p. gScore ?s2 p \<le> gScore s p"
    and alt: "?s2 = ?s1 \<or> (\<exists>p \<in> nodes lv. gScore ?s2 p < gScore s p)" by auto
  from alt show ?thesis
  proof
    assume "?s2 = ?s1"
    with gs os have "gScore s' = gScore s" "openNodes s' = q" by simp_all
    moreover from get_length[OF g] have "length q < length (openNodes s)" by linarith
    ultimately show ?thesis by simp
  next
    assume "\<exists>p \<in> nodes lv. gScore ?s2 p < gScore s p"
    then obtain p where "p \<in> nodes lv" "gScore ?s2 p < gScore s p" by blast
    from potential_decreases[of "gScore ?s2" "gScore s", OF le this] gs
    show ?thesis by auto
  qed
qed

termination find_loop
proof (relation "measures [\<lambda>(lv, tr, tc, start, goal, evs, s). inf_count lv (gScore s),
                           \<lambda>(lv, tr, tc, start, goal, evs, s). fin_sum lv (gScore s),
                           \<lambda>(lv, tr, tc, start, goal, evs, s). length (openNodes s)]",
       goal_cases)
  case 1
  show ?case by simp
next
  case (2 lv tr tc start goal evs s s')
  from step_decreases[OF 2] show ?case by auto
qed

section \<open>Events\<close>

lemma poll_flag: "poll es v = None \<longleftrightarrow> poll es w = None"
  by (induction es v arbitrary: w rule: poll.induct) auto

lemma no_exit_hd: "no_exit evs \<Longrightarrow> \<exists>v'. poll (case evs of [] \<Rightarrow> [] | e # _ \<Rightarrow> e) v = Some v'"
proof (cases evs)
  case Nil
  then show ?thesis by simp
next
  case (Cons e es)
  assume "no_exit evs"
  with Cons have "poll e True \<noteq> None" by (simp add: no_exit_def)
  with poll_flag[of e v True] have "poll e v \<noteq> None" by simp
  with Cons show ?thesis by auto
qed

lemma no_exit_tl: "no_exit evs \<Longrightarrow> no_exit (tl evs)"
  by (cases evs) (auto simp: no_exit_def)

section \<open>Start equal to goal\<close>

text \<open>
  Claim C8. When start and goal are the same node and no event asks for exit,
  \<open>find_path\<close> returns \<open>True\<close> in its first iteration and the path it marks is that
  single node. The code needs no bounds or obstacle condition for this.
\<close>

theorem find_path_start_is_goal:
  assumes "no_exit evs"
  shows "\<exists>s. find_path lv tr tc p p evs = Some (Return_True s [p])"
proof -
  from no_exit_hd[OF assms] obtain v where
    v: "poll (case evs of [] \<Rightarrow> [] | e # _ \<Rightarrow> e) True = Some v" by blast
  have g: "get (openNodes (init lv p p)) = Some ((0, 0, p), [])"
    by (simp add: init_def get_def put_def)
  have r: "reconstruct_path Map.empty p st = Some st" for st
    by (subst reconstruct_path.simps) simp
  have "\<exists>s. step lv tr tc p p (case evs of [] \<Rightarrow> [] | e # _ \<Rightarrow> e) (init lv p p)
          = Finish (Some (Return_True s [p]))"
    unfolding step_def g using v
    by (simp add: init_def node_def found_def r)
  then show ?thesis
    unfolding find_path_def by (subst find_loop.simps) auto
qed

theorem find_path_start_is_goal_witness:
  "no_exit [] \<and>
   (\<exists>s. find_path [[START, UNVISITED]] 1 2 (0, 0) (0, 0) [] = Some (Return_True s [(0, 0)]))"
  using find_path_start_is_goal[of "[]" "[[START, UNVISITED]]" 1 2 "(0, 0)"]
  by (simp add: no_exit_def)

section \<open>Initialisation and relaxation\<close>

text \<open>
  Claim C5. In the body of the loop over the neighbours of \<open>current\<close>, with candidate
  score \<open>gScore[current] + 1\<close>: when the candidate is strictly smaller than
  \<open>gScore[neighbor]\<close>, exactly the neighbour's entries of \<open>came_from\<close>, \<open>gScore\<close> and
  \<open>fScore\<close> are updated; when it is not (equal included), the state is unchanged; a
  relaxed neighbour outside \<open>openNodesHash\<close> is pushed with the incremented counter,
  added to the set and marked \<open>OPEN\<close>; for a neighbour in \<open>openNodesHash\<close> the queue,
  the set, the level and the counter stay as they are.
\<close>

theorem relax_strict_improvement:
  "(gScore s c + 1 < gScore s n \<longrightarrow>
      came_from (relax goal c s n) = (came_from s)(n \<mapsto> c) \<and>
      gScore (relax goal c s n) = (gScore s)(n := gScore s c + 1) \<and>
      fScore (relax goal c s n) = (fScore s)(n := gScore s c + 1 + enat (h n goal))) \<and>
   (\<not> gScore s c + 1 < gScore s n \<longrightarrow> relax goal c s n = s) \<and>
   (gScore s c + 1 < gScore s n \<and> n \<notin> openNodesHash s \<longrightarrow>
      openNodes (relax goal c s n) =
        openNodes s @ [(gScore s c + 1 + enat (h n goal), count s + 1, n)] \<and>
      openNodesHash (relax goal c s n) = insert n (openNodesHash s) \<and>
      level (relax goal c s n) = set_type (level s) n OPEN \<and>
      count (relax goal c s n) = count s + 1) \<and>
   (n \<in> openNodesHash s \<longrightarrow>
      openNodes (relax goal c s n) = openNodes s \<and>
      openNodesHash (relax goal c s n) = openNodesHash s \<and>
      level (relax goal c s n) = level s \<and>
      count (relax goal c s n) = count s)"
  by (simp add: relax_def Let_def put_def)

theorem relax_strict_improvement_witness:
  "gScore (init grid_line (0, 0) (0, 2)) (0, 0) + 1 < gScore (init grid_line (0, 0) (0, 2)) (0, 1) \<and>
   (0, 1) \<notin> openNodesHash (init grid_line (0, 0) (0, 2)) \<and>
   came_from (relax (0, 2) (0, 0) (init grid_line (0, 0) (0, 2)) (0, 1)) (0, 1) = Some (0, 0) \<and>
   gScore (relax (0, 2) (0, 0) (init grid_line (0, 0) (0, 2)) (0, 1)) (0, 1) = 1 \<and>
   openNodes (relax (0, 2) (0, 0) (init grid_line (0, 0) (0, 2)) (0, 1)) = [(0, 0, (0, 0)), (2, 1, (0, 1))] \<and>
   level (relax (0, 2) (0, 0) (init grid_line (0, 0) (0, 2)) (0, 1)) = [[START, OPEN, GOAL]]"
  using relax_strict_improvement[of "init grid_line (0, 0) (0, 2)" "(0, 0)" "(0, 1)" "(0, 2)"]
  by (simp add: init_def grid_line_def put_def h_def set_type_def one_enat_def numeral_eq_enat)

text \<open>
  Claim C4, as stated, fails: the first entry is pushed with priority \<open>0\<close>, before
  \<open>fScore[start]\<close> is computed, and on the one-row level the heuristic of the start
  is \<open>2\<close>.
\<close>

theorem init_pushes_zero_priority:
  "openNodes (init grid_line (0, 0) (0, 2)) \<noteq>
     [(fScore (init grid_line (0, 0) (0, 2)) (0, 0), 0, (0, 0))]"
  by (simp add: init_def put_def h_def zero_enat_def)

text \<open>
  Claim C4, amended. At initialisation \<open>gScore[start] = 0\<close>,
  \<open>fScore[start] = h(start, goal)\<close>, the queue holds the single entry \<open>(0, 0, start)\<close>
  and the counter is \<open>0\<close>; every later push (they all happen in the relaxation of a
  neighbour) increments the counter by one and appends an entry that carries the new
  counter value and the neighbour's \<open>fScore\<close>.
\<close>

theorem init_and_counter:
  "gScore (init lv start goal) start = 0 \<and>
   fScore (init lv start goal) start = enat (h start goal) \<and>
   openNodes (init lv start goal) = [(0, 0, start)] \<and>
   count (init lv start goal) = 0 \<and>
   ((openNodes (relax goal c s n) = openNodes s \<and> count (relax goal c s n) = count s) \<or>
    (openNodes (relax goal c s n) = openNodes s @ [(fScore (relax goal c s n) n, count s + 1, n)] \<and>
     count (relax goal c s n) = count s + 1))"
  by (simp add: init_def put_def relax_def Let_def)

section \<open>Map files\<close>

lemma concat_file_lines: "concat (file_lines s) = s"
  by (induction s) (auto split: list.splits)

lemma file_lines_Nil: "file_lines s = [] \<longleftrightarrow> s = []"
  by (cases s) (auto split: list.splits)

lemma file_lines_newline:
  "l \<in> set (file_lines s) \<Longrightarrow> l \<noteq> [] \<and> CHR 0x0A \<notin> set (butlast l)"
proof (induction s arbitrary: l)
  case Nil
  then show ?case by simp
next
  case (Cons c cs)
  show ?case
  proof (cases "c = CHR 0x0A")
    case True
    with Cons show ?thesis by auto
  next
    case False
    show ?thesis
    proof (cases "file_lines cs")
      case Nil
      with Cons.prems False show ?thesis by simp
    next
      case (Cons k ks)
      with Cons.IH have k: "k \<noteq> []" "CHR 0x0A \<notin> set (butlast k)"
        and ks: "l \<in> set ks \<Longrightarrow> l \<noteq> [] \<and> CHR 0x0A \<notin> set (butlast l)" by auto
      from Cons.prems False Cons have "l = c # k \<or> l \<in> set ks" by simp
      then show ?thesis using k ks False by auto
    qed
  qed
qed

lemma file_lines_length:
  assumes "l \<in> set (file_lines s)"
  shows "length l \<le> length (filter (\<lambda>c. c \<noteq> CHR 0x0A) l) + 1"
proof -
  from file_lines_newline[OF assms] have ne: "l \<noteq> []" and nl: "CHR 0x0A \<notin> set (butlast l)"
    by auto
  from nl have "filter (\<lambda>c. c \<noteq> CHR 0x0A) (butlast l) = butlast l"
    by (auto simp: filter_id_conv)
  moreover from ne have "l = butlast l @ [last l]" by simp
  then have "filter (\<lambda>c. c \<noteq> CHR 0x0A) l =
      filter (\<lambda>c. c \<noteq> CHR 0x0A) (butlast l) @ filter (\<lambda>c. c \<noteq> CHR 0x0A) [last l]"
    by (metis filter_append)
  ultimately have "length (butlast l) \<le> length (filter (\<lambda>c. c \<noteq> CHR 0x0A) l)"
    by simp
  then show ?thesis by simp
qed

lemma make_row_ok:
  "\<forall>c \<in> set l. classify c \<noteq> None \<Longrightarrow> j + length l \<le> COL_LIMIT + 1 \<Longrightarrow>
   \<exists>r. make_row i j l acc = Inr r"
proof (induction l arbitrary: j acc)
  case Nil
  then show ?case by (cases acc) simp
next
  case (Cons ch cs)
  obtain row st gl where acc: "acc = (row, st, gl)" by (cases acc)
  from Cons.prems obtain t where t: "classify ch = Some t" by auto
  from Cons.prems have j: "\<not> j > COL_LIMIT" by simp
  from Cons.prems have "\<forall>c \<in> set cs. classify c \<noteq> None" "(j + 1) + length cs \<le> COL_LIMIT + 1"
    by simp_all
  from Cons.IH[OF this] show ?case using t j acc by simp
qed

lemma make_row_bad:
  "(\<exists>c \<in> set l. classify c = None) \<or> j + length l > COL_LIMIT + 1 \<Longrightarrow> j \<le> COL_LIMIT + 1 \<Longrightarrow>
   make_row i j l acc = Inl SystemExit"
proof (induction l arbitrary: j acc)
  case Nil
  then show ?case by simp
next
  case (Cons ch cs)
  obtain row st gl where acc: "acc = (row, st, gl)" by (cases acc)
  show ?case
  proof (cases "classify ch")
    case None
    then show ?thesis using acc by simp
  next
    case (Some t)
    show ?thesis
    proof (cases "j > COL_LIMIT")
      case True
      then show ?thesis using Some acc by simp
    next
      case False
      with Cons.prems Some have "(\<exists>c \<in> set cs. classify c = None) \<or> (j + 1) + length cs > COL_LIMIT + 1"
        and "j + 1 \<le> COL_LIMIT + 1" by auto
      from Cons.IH[OF this] show ?thesis using Some False acc by simp
    qed
  qed
qed

lemma make_row_error: "make_row i j l acc = Inl e \<Longrightarrow> e = SystemExit"
proof (induction l arbitrary: j acc)
  case Nil
  then show ?case by simp
next
  case (Cons ch cs)
  obtain row st gl where acc: "acc = (row, st, gl)" by (cases acc)
  from Cons.prems Cons.IH show ?case
    unfolding acc by (auto split: option.splits if_splits)
qed

lemma make_rows_ok:
  "\<forall>l \<in> set ls. (\<forall>c \<in> set l. classify c \<noteq> None) \<and> length l \<le> COL_LIMIT + 1 \<Longrightarrow>
   i + length ls \<le> ROW_LIMIT + 1 \<Longrightarrow> \<exists>r. make_rows i ls acc = Inr r"
proof (induction ls arbitrary: i acc)
  case Nil
  then show ?case by (cases acc) simp
next
  case (Cons l ls)
  obtain lvl st gl where acc: "acc = (lvl, st, gl)" by (cases acc)
  from Cons.prems have "\<forall>c \<in> set l. classify c \<noteq> None" "0 + length l \<le> COL_LIMIT + 1" by simp_all
  from make_row_ok[OF this] obtain row st' gl' where
    r: "make_row i 0 l ([], st, gl) = Inr (row, st', gl')" by (metis prod_cases3)
  from Cons.prems have i: "\<not> i > ROW_LIMIT" by simp
  from Cons.prems have "\<forall>l \<in> set ls. (\<forall>c \<in> set l. classify c \<noteq> None) \<and> length l \<le> COL_LIMIT + 1"
    "(i + 1) + length ls \<le> ROW_LIMIT + 1" by simp_all
  from Cons.IH[OF this] show ?case using r i acc by simp
qed

lemma make_rows_bad:
  "(\<exists>l \<in> set ls. (\<exists>c \<in> set l. classify c = None) \<or> length l > COL_LIMIT + 1) \<or>
     i + length ls > ROW_LIMIT + 1 \<Longrightarrow>
   i \<le> ROW_LIMIT + 1 \<Longrightarrow> make_rows i ls acc = Inl SystemExit"
proof (induction ls arbitrary: i acc)
  case Nil
  then show ?case by simp
next
  case (Cons l ls)
  obtain lvl st gl where acc: "acc = (lvl, st, gl)" by (cases acc)
  show ?case
  proof (cases "make_row i 0 l ([], st, gl)")
    case (Inl e)
    with make_row_error[OF Inl] show ?thesis using acc by simp
  next
    case (Inr r)
    obtain row st' gl' where r: "r = (row, st', gl')" by (cases r)
    have lok: "\<not> ((\<exists>c \<in> set l. classify c = None) \<or> 0 + length l > COL_LIMIT + 1)"
    proof
      assume "(\<exists>c \<in> set l. classify c = None) \<or> 0 + length l > COL_LIMIT + 1"
      from make_row_bad[OF this, of i "([], st, gl)"] Inr show False by simp
    qed
    show ?thesis
    proof (cases "i > ROW_LIMIT")
      case True
      then show ?thesis using Inr r acc by simp
    next
      case False
      with Cons.prems lok have
        "(\<exists>l \<in> set ls. (\<exists>c \<in> set l. classify c = None) \<or> length l > COL_LIMIT + 1) \<or>
           (i + 1) + length ls > ROW_LIMIT + 1" and "i + 1 \<le> ROW_LIMIT + 1" by auto
      from Cons.IH[OF this] show ?thesis using Inr r False acc by simp
    qed
  qed
qed

lemma classify_None:
  "classify c = None \<longleftrightarrow> c \<notin> {CHR ''#'', CHR ''S'', CHR ''G'', CHR ''.'', CHR 0x0A}"
  by (simp add: classify_def)

text \<open>
  Claim C9, as stated, fails: \<open>make_level\<close> counts neither the start nor the goal cells
  and never compares the lengths of two rows. A map with two \<open>S\<close> is accepted (the
  last one becomes \<open>start\<close>), and so is a map whose rows differ in length (the newline
  of a line is a cell of its row).
\<close>

theorem make_level_accepts_malformed:
  "count_list ''SSG'' CHR ''S'' = 2 \<and>
   make_level ''SSG'' =
     Inr \<lparr> b_level = [[START, START, GOAL]], b_start = Some (0, 1), b_goal = Some (0, 2),
           b_rows = 1, b_cols = 3 \<rparr> \<and>
   file_lines (''S.'' @ [CHR 0x0A] @ ''G'') = [''S.'' @ [CHR 0x0A], ''G''] \<and>
   make_level (''S.'' @ [CHR 0x0A] @ ''G'') =
     Inr \<lparr> b_level = [[START, UNVISITED, UNVISITED], [GOAL]], b_start = Some (0, 0),
           b_goal = Some (1, 0), b_rows = 2, b_cols = 1 \<rparr>"
  by (simp add: make_level_def classify_def COL_LIMIT_def ROW_LIMIT_def)

text \<open>
  Claim C9, amended. \<open>make_level\<close> exits when the text holds a character other than
  \<open>#\<close>, \<open>S\<close>, \<open>G\<close>, \<open>.\<close> and newline, when it has more than 101 lines, or when a line
  (its newline included) is longer than 101 characters. It returns a level, whatever
  the number of start and goal cells and the lengths of the rows, when the text is not
  empty, holds those characters only, has at most 100 lines, and no line has more than
  100 characters before its newline.
\<close>

theorem make_level_checks:
  "((\<exists>c \<in> set content. c \<notin> {CHR ''#'', CHR ''S'', CHR ''G'', CHR ''.'', CHR 0x0A}) \<or>
    length (file_lines content) > 101 \<or>
    (\<exists>l \<in> set (file_lines content). length l > 101)
    \<longrightarrow> make_level content = Inl SystemExit) \<and>
   (content \<noteq> [] \<and>
    set content \<subseteq> {CHR ''#'', CHR ''S'', CHR ''G'', CHR ''.'', CHR 0x0A} \<and>
    length (file_lines content) \<le> 100 \<and>
    (\<forall>l \<in> set (file_lines content). length (filter (\<lambda>c. c \<noteq> CHR 0x0A) l) \<le> 100)
    \<longrightarrow> (\<exists>b. make_level content = Inr b \<and> b_rows b = length (file_lines content)))"
proof (intro conjI impI)
  assume bad: "(\<exists>c \<in> set content. c \<notin> {CHR ''#'', CHR ''S'', CHR ''G'', CHR ''.'', CHR 0x0A}) \<or>
    length (file_lines content) > 101 \<or> (\<exists>l \<in> set (file_lines content). length l > 101)"
  have "set content = (\<Union>l \<in> set (file_lines content). set l)"
    using concat_file_lines[of content] by (metis set_concat)
  with bad have "(\<exists>l \<in> set (file_lines content). (\<exists>c \<in> set l. classify c = None) \<or> length l > COL_LIMIT + 1) \<or>
     0 + length (file_lines content) > ROW_LIMIT + 1"
    unfolding classify_None COL_LIMIT_def ROW_LIMIT_def by auto
  from make_rows_bad[OF this] show "make_level content = Inl SystemExit"
    by (simp add: make_level_def)
next
  assume ok: "content \<noteq> [] \<and>
    set content \<subseteq> {CHR ''#'', CHR ''S'', CHR ''G'', CHR ''.'', CHR 0x0A} \<and>
    length (file_lines content) \<le> 100 \<and>
    (\<forall>l \<in> set (file_lines content). length (filter (\<lambda>c. c \<noteq> CHR 0x0A) l) \<le> 100)"
  have sub: "set l \<subseteq> set content" if "l \<in> set (file_lines content)" for l
    using concat_file_lines[of content] that by (metis set_concat UN_upper)
  have "\<forall>l \<in> set (file_lines content). (\<forall>c \<in> set l. classify c \<noteq> None) \<and> length l \<le> COL_LIMIT + 1"
  proof
    fix l assume l: "l \<in> set (file_lines content)"
    from sub[OF l] ok have "\<forall>c \<in> set l. classify c \<noteq> None"
      unfolding classify_None by blast
    moreover from file_lines_length[OF l] ok l have "length l \<le> COL_LIMIT + 1"
      unfolding COL_LIMIT_def by fastforce
    ultimately show "(\<forall>c \<in> set l. classify c \<noteq> None) \<and> length l \<le> COL_LIMIT + 1" ..
  qed
  moreover from ok have "0 + length (file_lines content) \<le> ROW_LIMIT + 1"
    by (simp add: ROW_LIMIT_def)
  ultimately obtain r where "make_rows 0 (file_lines content) ([], None, None) = Inr r"
    using make_rows_ok by blast
  moreover from ok have "file_lines content \<noteq> []" by (simp add: file_lines_Nil)
  ultimately show "\<exists>b. make_level content = Inr b \<and> b_rows b = length (file_lines content)"
    by (cases r) (simp add: make_level_def Let_def)
qed

theorem make_level_checks_witness:
  "(\<exists>c \<in> set ''Sx''. c \<notin> {CHR ''#'', CHR ''S'', CHR ''G'', CHR ''.'', CHR 0x0A}) \<and>
   make_level ''Sx'' = Inl SystemExit \<and>
   ''S.G'' \<noteq> [] \<and> set ''S.G'' \<subseteq> {CHR ''#'', CHR ''S'', CHR ''G'', CHR ''.'', CHR 0x0A} \<and>
   file_lines ''S.G'' = [''S.G''] \<and>
   (\<exists>b. make_level ''S.G'' = Inr b \<and> b_rows b = length (file_lines ''S.G''))"
  using make_level_checks[of "''Sx''"] make_level_checks[of "''S.G''"]
  by simp

section \<open>The priority queue\<close>

lemma foldl_relax_induct:
  assumes "P s" and "\<And>s n. P s \<Longrightarrow> n \<in> set ns \<Longrightarrow> P (relax goal cur s n)"
  shows "P (foldl (relax goal cur) s ns)"
  using assms
proof (induction ns arbitrary: s)
  case Nil
  then show ?case by simp
next
  case (Cons n ns)
  then show ?case by simp
qed

lemma queue_inv_init: "queue_inv (init lv start goal)"
  by (simp add: queue_inv_def init_def put_def node_def order_def)

lemma relax_queue_cases:
  "(openNodes (relax goal cur s n) = openNodes s \<and>
    openNodesHash (relax goal cur s n) = openNodesHash s \<and>
    count (relax goal cur s n) = count s) \<or>
   (n \<notin> openNodesHash s \<and>
    openNodes (relax goal cur s n) = openNodes s @ [(fScore (relax goal cur s n) n, count s + 1, n)] \<and>
    openNodesHash (relax goal cur s n) = insert n (openNodesHash s) \<and>
    count (relax goal cur s n) = count s + 1)"
  by (simp add: relax_def Let_def put_def)

lemma queue_inv_relax:
  assumes "queue_inv s"
  shows "queue_inv (relax goal cur s n)"
proof -
  let ?s' = "relax goal cur s n"
  from relax_queue_cases[of goal cur s n] show ?thesis
  proof
    assume "openNodes ?s' = openNodes s \<and> openNodesHash ?s' = openNodesHash s \<and> count ?s' = count s"
    with assms show ?thesis by (simp add: queue_inv_def)
  next
    assume a: "n \<notin> openNodesHash s \<and>
      openNodes ?s' = openNodes s @ [(fScore ?s' n, count s + 1, n)] \<and>
      openNodesHash ?s' = insert n (openNodesHash s) \<and> count ?s' = count s + 1"
    from assms have h: "node ` set (openNodes s) = openNodesHash s"
      and d: "distinct (map node (openNodes s))"
      and so: "sorted_wrt (<) (map order (openNodes s))"
      and c: "\<forall>e \<in> set (openNodes s). order e \<le> count s"
      by (simp_all add: queue_inv_def)
    from a h have 1: "node ` set (openNodes ?s') = openNodesHash ?s'"
      by (simp add: node_def)
    from a h d have 2: "distinct (map node (openNodes ?s'))"
      by (simp add: node_def)
    from c have "\<forall>x \<in> set (map order (openNodes s)). x < count s + 1" by auto
    with a so have 3: "sorted_wrt (<) (map order (openNodes ?s'))"
      by (simp add: sorted_wrt_append order_def)
    from a c have 4: "\<forall>e \<in> set (openNodes ?s'). order e \<le> count ?s'"
      by (auto simp: order_def)
    from 1 2 3 4 show ?thesis unfolding queue_inv_def by blast
  qed
qed

lemma sorted_wrt_remove1: "sorted_wrt P xs \<Longrightarrow> sorted_wrt P (remove1 x xs)"
  by (induction xs) (auto dest: notin_set_remove1)

lemma queue_inv_pop:
  assumes "queue_inv s" "get (openNodes s) = Some (e, q)"
  shows "queue_inv (s\<lparr> visualize := v, openNodes := q, openNodesHash := openNodesHash s - {node e} \<rparr>)"
proof -
  from get_length[OF assms(2)] have e: "e \<in> set (openNodes s)" and q: "q = remove1 e (openNodes s)"
    by auto
  from assms(1) have dn: "distinct (map node (openNodes s))"
    and h: "node ` set (openNodes s) = openNodesHash s"
    and so: "sorted_wrt (<) (map order (openNodes s))"
    and c: "\<forall>e \<in> set (openNodes s). order e \<le> count s"
    by (simp_all add: queue_inv_def)
  from dn have d: "distinct (openNodes s)" and inj: "inj_on node (set (openNodes s))"
    by (simp_all add: distinct_map)
  have sq: "set q = set (openNodes s) - {e}" using q d by simp
  have 1: "node ` set q = openNodesHash s - {node e}"
  proof -
    have "node ` (set (openNodes s) - {e}) = node ` set (openNodes s) - node ` {e}"
      using inj e by (intro inj_on_image_set_diff[of node "set (openNodes s)"]) auto
    with sq h show ?thesis by simp
  qed
  have 2: "distinct (map node q)"
    unfolding distinct_map
  proof
    show "distinct q" using d q by simp
    show "inj_on node (set q)" using inj sq by (auto intro: inj_on_subset)
  qed
  have 3: "sorted_wrt (<) (map order q)"
  proof -
    have "sorted_wrt (\<lambda>a b. order a < order b) (openNodes s)"
      using so by (simp add: sorted_wrt_map)
    then have "sorted_wrt (\<lambda>a b. order a < order b) q"
      unfolding q by (rule sorted_wrt_remove1)
    then show ?thesis by (simp add: sorted_wrt_map)
  qed
  have 4: "\<forall>e' \<in> set q. order e' \<le> count s"
    using c sq by blast
  from 1 2 3 4 show ?thesis by (simp add: queue_inv_def)
qed

lemma queue_inv_expand:
  "queue_inv s \<Longrightarrow> queue_inv (expand lv tr tc start goal cur s)"
proof -
  assume "queue_inv s"
  then have "queue_inv (foldl (relax goal cur) s (update_neighbors lv tr tc cur))"
    by (rule foldl_relax_induct) (rule queue_inv_relax)
  then show ?thesis by (simp add: queue_inv_def expand_fields)
qed

lemma reachable_queue_inv: "reachable lv tr tc start goal s \<Longrightarrow> queue_inv s"
proof (induction rule: reachable.induct)
  case reach_init
  show ?case by (rule queue_inv_init)
next
  case (reach_step s evs s')
  from reach_step(2) obtain e q v where
    g: "get (openNodes s) = Some (e, q)" and
    s': "s' = expand lv tr tc start goal (node e)
        (s\<lparr> visualize := v, openNodes := q, openNodesHash := openNodesHash s - {node e} \<rparr>)"
    by (rule step_Continue)
  show ?case unfolding s'
    by (rule queue_inv_expand, rule queue_inv_pop[OF reach_step.IH g])
qed




lemma square_s1_reachable: "reachable grid_square 2 2 (0, 0) (1, 1) square_s1"
proof -
  have "step grid_square 2 2 (0, 0) (1, 1) [] (init grid_square (0, 0) (1, 1)) = Continue square_s1"
    by (simp add: step_def init_def get_def put_def node_def square_s1_def Let_def)
  with reach_init show ?thesis by (rule reach_step)
qed




section \<open>Scores and predecessors\<close>

lemma score_inv_init: "score_inv lv tr tc start (init lv start goal)"
  by (simp add: score_inv_def init_def)

lemma relax_score_cases:
  "relax goal cur s n = s \<or>
   (gScore s cur + 1 < gScore s n \<and>
    came_from (relax goal cur s n) = (came_from s)(n \<mapsto> cur) \<and>
    gScore (relax goal cur s n) = (gScore s)(n := gScore s cur + 1) \<and>
    (openNodesHash (relax goal cur s n) = openNodesHash s \<or>
     openNodesHash (relax goal cur s n) = insert n (openNodesHash s)))"
  by (simp add: relax_def Let_def)

lemma enat_add1_less_self: "\<not> (x::enat) + 1 < x"
  by (cases x) (simp_all add: one_enat_def)

lemma score_inv_relax:
  assumes inv: "score_inv lv tr tc start s" and n: "n \<in> set (update_neighbors lv tr tc cur)"
  shows "score_inv lv tr tc start (relax goal cur s n)"
proof -
  let ?s' = "relax goal cur s n"
  from relax_score_cases[of goal cur s n] show ?thesis
  proof
    assume "?s' = s" with inv show ?thesis by simp
  next
    assume a: "gScore s cur + 1 < gScore s n \<and>
      came_from ?s' = (came_from s)(n \<mapsto> cur) \<and>
      gScore ?s' = (gScore s)(n := gScore s cur + 1) \<and>
      (openNodesHash ?s' = openNodesHash s \<or> openNodesHash ?s' = insert n (openNodesHash s))"
    then have lt: "gScore s cur + 1 < gScore s n"
      and cf: "came_from ?s' = (came_from s)(n \<mapsto> cur)"
      and gs: "gScore ?s' = (gScore s)(n := gScore s cur + 1)"
      and hs: "openNodesHash ?s' \<subseteq> insert n (openNodesHash s)" by auto
    from inv have i1: "gScore s start = 0" and i2: "came_from s start = None"
      and i3: "\<And>m c. came_from s m = Some c \<Longrightarrow>
         gScore s c + 1 \<le> gScore s m \<and> gScore s m < \<infinity> \<and> m \<in> set (update_neighbors lv tr tc c)"
      and i4: "\<And>m. gScore s m < \<infinity> \<Longrightarrow> m = start \<or> came_from s m \<noteq> None"
      and i5: "\<And>m. m \<in> openNodesHash s \<Longrightarrow> gScore s m < \<infinity>"
      unfolding score_inv_def by blast+
    from lt i1 have ns: "n \<noteq> start" by auto
    from lt have nc: "n \<noteq> cur" using enat_add1_less_self by auto
    from lt have fin: "gScore s cur + 1 < \<infinity>" by (cases "gScore s cur + 1") auto
    have le: "gScore ?s' m \<le> gScore s m" for m
      using gs lt by (simp add: less_imp_le)
    have 1: "gScore ?s' start = 0" using gs ns i1 by simp
    have 2: "came_from ?s' start = None" using cf ns i2 by simp
    have 3: "gScore ?s' c + 1 \<le> gScore ?s' m \<and> gScore ?s' m < \<infinity> \<and>
         m \<in> set (update_neighbors lv tr tc c)" if "came_from ?s' m = Some c" for m c
    proof (cases "m = n")
      case True
      with that cf have c: "c = cur" by simp
      with True gs nc n fin show ?thesis by simp
    next
      case False
      with that cf have m: "came_from s m = Some c" by simp
      from le[of c] have "gScore ?s' c + 1 \<le> gScore s c + 1" by (simp add: add_right_mono)
      also from i3[OF m] have "\<dots> \<le> gScore s m" by simp
      also from False gs have "gScore s m = gScore ?s' m" by simp
      finally have "gScore ?s' c + 1 \<le> gScore ?s' m" .
      moreover from i3[OF m] False gs have "gScore ?s' m < \<infinity>" by simp
      ultimately show ?thesis using i3[OF m] by simp
    qed
    have 4: "m = start \<or> came_from ?s' m \<noteq> None" if "gScore ?s' m < \<infinity>" for m
      using that i4[of m] gs cf by (cases "m = n") auto
    have 5: "gScore ?s' m < \<infinity>" if "m \<in> openNodesHash ?s'" for m
    proof (cases "m = n")
      case True
      with gs fin show ?thesis by simp
    next
      case False
      with that hs have "m \<in> openNodesHash s" by auto
      from i5[OF this] False gs show ?thesis by simp
    qed
    from 1 2 3 4 5 show ?thesis unfolding score_inv_def by blast
  qed
qed

lemma score_inv_fields:
  assumes "came_from s' = came_from s" "gScore s' = gScore s"
    "openNodesHash s' \<subseteq> openNodesHash s" "score_inv lv tr tc start s"
  shows "score_inv lv tr tc start s'"
proof -
  from assms(4) have h: "\<forall>n \<in> openNodesHash s. gScore s n < \<infinity>"
    and rest: "gScore s start = 0 \<and> came_from s start = None \<and>
      (\<forall>n c. came_from s n = Some c \<longrightarrow>
         gScore s c + 1 \<le> gScore s n \<and> gScore s n < \<infinity> \<and>
         n \<in> set (update_neighbors lv tr tc c)) \<and>
      (\<forall>n. gScore s n < \<infinity> \<longrightarrow> n = start \<or> came_from s n \<noteq> None)"
    unfolding score_inv_def by blast+
  from h assms(3) have "\<forall>n \<in> openNodesHash s'. gScore s n < \<infinity>" by blast
  with rest show ?thesis unfolding score_inv_def assms(1,2) by blast
qed

lemma score_inv_expand:
  assumes "score_inv lv tr tc start s"
  shows "score_inv lv tr tc start (expand lv tr tc start goal cur s)"
proof -
  from assms have "score_inv lv tr tc start (foldl (relax goal cur) s (update_neighbors lv tr tc cur))"
    by (rule foldl_relax_induct) (rule score_inv_relax)
  then show ?thesis
    by (rule score_inv_fields[rotated 3]) (simp_all add: expand_fields)
qed

lemma reachable_score_inv:
  "reachable lv tr tc start goal s \<Longrightarrow> score_inv lv tr tc start s"
proof (induction rule: reachable.induct)
  case reach_init
  show ?case by (rule score_inv_init)
next
  case (reach_step s evs s')
  from reach_step(2) obtain e q v where
    s': "s' = expand lv tr tc start goal (node e)
        (s\<lparr> visualize := v, openNodes := q, openNodesHash := openNodesHash s - {node e} \<rparr>)"
    by (rule step_Continue)
  have "score_inv lv tr tc start
      (s\<lparr> visualize := v, openNodes := q, openNodesHash := openNodesHash s - {node e} \<rparr>)"
    using reach_step.IH by (rule score_inv_fields[rotated 3]) auto
  then show ?case unfolding s' by (rule score_inv_expand)
qed

lemma score_inv_decreasing:
  assumes "score_inv lv tr tc start s" "came_from s n = Some c"
  shows "gScore s c < gScore s n"
proof -
  from assms have le: "gScore s c + 1 \<le> gScore s n" and fin: "gScore s n < \<infinity>"
    unfolding score_inv_def by blast+
  then obtain k where k: "gScore s n = enat k" by auto
  with le obtain j where j: "gScore s c = enat j" by (cases "gScore s c") auto
  from le k j show ?thesis by (simp add: one_enat_def)
qed

lemma reconstruct_path_walk:
  fixes g :: "pos \<Rightarrow> enat"
  assumes dec: "\<And>m c. cf m = Some c \<Longrightarrow> g c < g m"
    and Qstep: "\<And>x m c. Q x \<Longrightarrow> cf m = Some c \<Longrightarrow> Q (mark x c)"
  shows "g n < \<infinity> \<Longrightarrow> Q l \<Longrightarrow> \<forall>x \<in> set f. Q x \<Longrightarrow>
     \<exists>lvl fr p. reconstruct_path cf n (l, f, path) = Some (lvl, fr, p @ path) \<and>
        cf (hd (p @ [n])) = None \<and> g (hd (p @ [n])) \<le> g n \<and>
        successively (\<lambda>a b. cf b = Some a) (p @ [n]) \<and>
        Q lvl \<and> (\<forall>x \<in> set fr. Q x)"
proof (induction "the_enat (g n)" arbitrary: n l f path rule: less_induct)
  case less
  show ?case
  proof (cases "cf n")
    case None
    then have "reconstruct_path cf n (l, f, path) = Some (l, f, [] @ path)"
      by (subst reconstruct_path.simps) simp
    with None less.prems show ?thesis by (intro exI[of _ l] exI[of _ f] exI[of _ "[]"]) simp
  next
    case (Some c)
    from dec[OF Some] less.prems(1) have lt: "the_enat (g c) < the_enat (g n)" and fin: "g c < \<infinity>"
      by (cases "g c"; cases "g n"; simp)+
    have Q1: "Q (mark l c)" using Qstep[OF less.prems(2) Some] .
    have Q2: "\<forall>x \<in> set (f @ [mark l c]). Q x" using less.prems(3) Q1 by simp
    from less.hyps[OF lt fin Q1 Q2, of "c # path"] obtain lvl fr p where
      r: "reconstruct_path cf c (mark l c, f @ [mark l c], c # path) = Some (lvl, fr, p @ c # path)"
      and e: "cf (hd (p @ [c])) = None" and le: "g (hd (p @ [c])) \<le> g c"
      and su: "successively (\<lambda>a b. cf b = Some a) (p @ [c])"
      and Q: "Q lvl" "\<forall>x \<in> set fr. Q x" by blast
    have "reconstruct_path cf n (l, f, path) = Some (lvl, fr, (p @ [c]) @ path)"
      by (subst reconstruct_path.simps) (simp add: Some r)
    moreover have "hd ((p @ [c]) @ [n]) = hd (p @ [c])" by (cases p) simp_all
    moreover have "successively (\<lambda>a b. cf b = Some a) ((p @ [c]) @ [n])"
      using su Some by (simp add: successively_append_iff)
    moreover have "g (hd (p @ [c])) \<le> g n" using le dec[OF Some] by (simp add: order.trans less_imp_le)
    ultimately show ?thesis using e Q by (intro exI[of _ lvl] exI[of _ fr] exI[of _ "p @ [c]"]) simp
  qed
qed

lemma score_inv_root:
  assumes "score_inv lv tr tc start s" "gScore s n < \<infinity>" "came_from s n = None"
  shows "n = start"
  using assms unfolding score_inv_def by blast

lemma walk_last: "last (p @ [n]) = n"
  by simp

lemma square_s1_gScore: "gScore square_s1 (1, 0) = 1"
  by code_simp

text \<open>
  Claim C6. In every state at the head of the loop each predecessor has a strictly
  smaller \<open>gScore\<close> than its node, so \<open>came_from\<close> has no cycle, and the walk of
  \<open>reconstruct_path\<close> from any node with a finite score (the goal, when it is popped)
  returns; the nodes it visits form a chain of predecessors that ends at the node it
  started from and begins at the start node.
\<close>

theorem came_from_walk_reaches_start:
  assumes "reachable lv tr tc start goal s" and "gScore s n < \<infinity>"
  shows "(\<forall>m c. came_from s m = Some c \<longrightarrow> gScore s c < gScore s m) \<and>
         (\<exists>lvl fr p. reconstruct_path (came_from s) n (l, f, [n]) = Some (lvl, fr, p) \<and>
            hd p = start \<and> last p = n \<and>
            successively (\<lambda>a b. came_from s b = Some a) p)"
proof -
  have inv: "score_inv lv tr tc start s" using assms(1) by (rule reachable_score_inv)
  have dec: "\<And>m c. came_from s m = Some c \<Longrightarrow> gScore s c < gScore s m"
    using inv by (rule score_inv_decreasing)
  from reconstruct_path_walk[of "came_from s" "gScore s" "\<lambda>_. True" n l f "[n]", OF dec _ assms(2)]
  obtain lvl fr p where
    r: "reconstruct_path (came_from s) n (l, f, [n]) = Some (lvl, fr, p @ [n])"
    and e: "came_from s (hd (p @ [n])) = None" and le: "gScore s (hd (p @ [n])) \<le> gScore s n"
    and su: "successively (\<lambda>a b. came_from s b = Some a) (p @ [n])" by auto
  from le assms(2) have "gScore s (hd (p @ [n])) < \<infinity>" by (rule le_less_trans)
  with inv e have "hd (p @ [n]) = start" by (intro score_inv_root)
  with r su dec show ?thesis by (intro conjI allI impI exI[of _ lvl] exI[of _ fr] exI[of _ "p @ [n]"]) simp_all
qed

theorem came_from_walk_reaches_start_witness:
  "reachable grid_square 2 2 (0, 0) (1, 1) square_s1 \<and> gScore square_s1 (1, 0) < \<infinity> \<and>
   (\<exists>lvl fr p. reconstruct_path (came_from square_s1) (1, 0) (grid_square, [], [(1, 0)]) = Some (lvl, fr, p) \<and>
      hd p = (0, 0) \<and> last p = (1, 0))"
proof -
  have g: "gScore square_s1 (1, 0) < \<infinity>" by (subst square_s1_gScore) simp
  from came_from_walk_reaches_start[OF square_s1_reachable g, of grid_square "[]"]
  show ?thesis using square_s1_reachable g by blast
qed

section \<open>How the loop ends\<close>

lemma step_Finish:
  assumes "step lv tr tc start goal ev s = Finish r"
  shows "(openNodes s = [] \<and> r = Some (Return_False s)) \<or>
         (poll ev (visualize s) = None \<and> r = Some Exit) \<or>
         (\<exists>e q. get (openNodes s) = Some (e, q) \<and> node e \<notin> openNodesHash s \<and> r = Some KeyError) \<or>
         (\<exists>e q v. get (openNodes s) = Some (e, q) \<and> poll ev (visualize s) = Some v \<and>
            node e = goal \<and> goal \<in> openNodesHash s \<and>
            r = found goal (s\<lparr> visualize := v, openNodes := q,
                               openNodesHash := openNodesHash s - {goal} \<rparr>))"
proof (cases "openNodes s")
  case Nil
  with assms show ?thesis by (simp add: step_def get_def)
next
  case (Cons x xs)
  then obtain e q where g: "get (openNodes s) = Some (e, q)" by (simp add: get_def Let_def)
  show ?thesis
  proof (cases "poll ev (visualize s)")
    case None
    with assms g show ?thesis by (simp add: step_def)
  next
    case (Some v)
    with assms g show ?thesis
      by (cases "node e \<in> openNodesHash s"; cases "node e = goal") (simp_all add: step_def Let_def)
  qed
qed

lemma find_loop_finish:
  "reachable lv tr tc start goal s \<Longrightarrow>
   \<exists>sf ev. reachable lv tr tc start goal sf \<and>
     step lv tr tc start goal ev sf = Finish (find_loop lv tr tc start goal evs s) \<and>
     (no_exit evs \<longrightarrow> poll ev (visualize sf) \<noteq> None)"
proof (induction lv tr tc start goal evs s rule: find_loop.induct)
  case (1 lv tr tc start goal evs s)
  let ?ev = "case evs of [] \<Rightarrow> [] | e # _ \<Rightarrow> e"
  show ?case
  proof (cases "step lv tr tc start goal ?ev s")
    case (Finish r)
    then have "find_loop lv tr tc start goal evs s = r"
      by (subst find_loop.simps) simp
    with Finish 1(2) no_exit_hd[of evs "visualize s"] show ?thesis
      by (intro exI[of _ s] exI[of _ ?ev]) auto
  next
    case (Continue s')
    then have eq: "find_loop lv tr tc start goal evs s = find_loop lv tr tc start goal (tl evs) s'"
      by (subst find_loop.simps) simp
    from 1(2) Continue have "reachable lv tr tc start goal s'" by (rule reach_step)
    from 1(1)[OF Continue this] obtain sf ev where
      "reachable lv tr tc start goal sf"
      "step lv tr tc start goal ev sf = Finish (find_loop lv tr tc start goal (tl evs) s')"
      "no_exit (tl evs) \<longrightarrow> poll ev (visualize sf) \<noteq> None" by blast
    with eq no_exit_tl[of evs] show ?thesis by (intro exI[of _ sf] exI[of _ ev]) auto
  qed
qed

section \<open>The level during the search\<close>

lemma map_length_set_type: "map length (set_type g p t) = map length g"
proof -
  obtain r c where p: "p = (r, c)" by (cases p)
  show ?thesis unfolding p set_type_def
    by (simp add: map_update) (metis length_list_update list_update_id map_update)
qed

lemma nodes_shape: "map length g = map length lv \<Longrightarrow> nodes g = nodes lv"
proof -
  assume a: "map length g = map length lv"
  then have l: "length g = length lv" by (metis length_map)
  have "length (g ! r) = length (lv ! r)" if "r < length lv" for r
    using a that l by (metis nth_map)
  with l show ?thesis by (auto simp: nodes_def)
qed

lemma type_of_set_type:
  "type_of (set_type g p t) q = (if q = p \<and> p \<in> nodes g then t else type_of g q)"
proof -
  obtain r c where p: "p = (r, c)" by (cases p)
  obtain r' c' where q: "q = (r', c')" by (cases q)
  show ?thesis
  proof (cases "r < length g")
    case False
    then have "g[r := (g ! r)[c := t]] = g" by (intro list_update_beyond) simp
    with False show ?thesis by (simp add: p q set_type_def type_of_def nodes_def)
  next
    case True
    show ?thesis
    proof (cases "r' = r")
      case False
      then show ?thesis by (simp add: p q set_type_def type_of_def)
    next
      case r: True
      show ?thesis
      proof (cases "c' = c")
        case False
        with True r show ?thesis by (simp add: p q set_type_def type_of_def)
      next
        case c: True
        show ?thesis
        proof (cases "c < length (g ! r)")
          case True
          with \<open>r < length g\<close> r c show ?thesis by (simp add: p q set_type_def type_of_def nodes_def)
        next
          case False
          then have "(g ! r)[c := t] = g ! r" by (intro list_update_beyond) simp
          with False \<open>r < length g\<close> r c show ?thesis
            by (simp add: p q set_type_def type_of_def nodes_def)
        qed
      qed
    qed
  qed
qed

lemma level_ok_set_type:
  assumes "level_ok lv start goal g" "p \<noteq> start" "free lv start p"
  shows "level_ok lv start goal (set_type g p t)"
proof -
  from assms(2,3) have np: "p \<in> nodes lv" "type_of lv p \<noteq> OBSTACLE" by (auto simp: free_def)
  from assms(1) have sh: "map length g = map length lv"
    and ob: "\<forall>q \<in> nodes lv. type_of lv q = OBSTACLE \<longrightarrow> type_of g q = OBSTACLE"
    and st: "type_of g start = START \<or> (start = goal \<and> type_of g start = GOAL)"
    unfolding level_ok_def by blast+
  have 1: "map length (set_type g p t) = map length lv" using sh by (simp add: map_length_set_type)
  have 2: "\<forall>q \<in> nodes lv. type_of lv q = OBSTACLE \<longrightarrow> type_of (set_type g p t) q = OBSTACLE"
    using ob np by (auto simp: type_of_set_type)
  have 3: "type_of (set_type g p t) start = type_of g start"
    using assms(2) by (simp add: type_of_set_type)
  from 1 2 3 st show ?thesis unfolding level_ok_def by simp
qed

lemma level_ok_set_goal:
  assumes "level_ok lv start goal g" "type_of lv start \<noteq> OBSTACLE" "free lv start goal"
  shows "level_ok lv start goal (set_type g goal GOAL)"
proof (cases "goal = start")
  case False
  with assms show ?thesis by (intro level_ok_set_type) auto
next
  case True
  from assms(1) have sh: "map length g = map length lv"
    and ob: "\<forall>q \<in> nodes lv. type_of lv q = OBSTACLE \<longrightarrow> type_of g q = OBSTACLE"
    and st: "type_of g start = START \<or> (start = goal \<and> type_of g start = GOAL)"
    unfolding level_ok_def by blast+
  have 1: "map length (set_type g goal GOAL) = map length lv" using sh by (simp add: map_length_set_type)
  have 2: "\<forall>q \<in> nodes lv. type_of lv q = OBSTACLE \<longrightarrow> type_of (set_type g goal GOAL) q = OBSTACLE"
    using ob assms(2) True by (auto simp: type_of_set_type)
  have 3: "type_of (set_type g goal GOAL) start = START \<or>
      (start = goal \<and> type_of (set_type g goal GOAL) start = GOAL)"
    using st True by (auto simp: type_of_set_type)
  from 1 2 3 show ?thesis unfolding level_ok_def by simp
qed

lemma level_ok_mark:
  assumes "level_ok lv start goal g" "free lv start c"
  shows "level_ok lv start goal (mark g c)"
proof (cases "type_of g c \<noteq> START \<and> type_of g c \<noteq> GOAL")
  case False
  then have "mark g c = g" by (auto simp: mark_def)
  with assms(1) show ?thesis by simp
next
  case True
  from assms(1) have "type_of g start = START \<or> type_of g start = GOAL"
    unfolding level_ok_def by blast
  with True have "c \<noteq> start" by auto
  with assms True show ?thesis by (simp add: mark_def level_ok_set_type)
qed

lemma score_inv_free:
  assumes "score_inv lv tr tc start s" "gScore s p < \<infinity>"
  shows "free lv start p"
proof (cases "p = start")
  case True
  then show ?thesis by (simp add: free_def)
next
  case False
  with assms obtain c where "came_from s p = Some c" unfolding score_inv_def by blast
  with assms(1) have "p \<in> set (update_neighbors lv tr tc c)" unfolding score_inv_def by blast
  from update_neighbors_sound[OF this] show ?thesis
    by (cases p) (auto simp: free_def nodes_def node_at_def type_of_def split: if_splits)
qed

lemma score_inv_pred_free:
  assumes "score_inv lv tr tc start s" "came_from s m = Some c"
  shows "free lv start c"
proof -
  from score_inv_decreasing[OF assms] have "gScore s c < \<infinity>"
    by (cases "gScore s c") auto
  with assms(1) show ?thesis by (rule score_inv_free)
qed

lemma relax_level_cases:
  "(level (relax goal cur s n) = level s \<or>
    (gScore s cur + 1 < gScore s n \<and> level (relax goal cur s n) = set_type (level s) n OPEN)) \<and>
   frames (relax goal cur s n) = frames s"
  by (simp add: relax_def Let_def)

lemma update_neighbors_free:
  "n \<in> set (update_neighbors lv tr tc c) \<Longrightarrow> free lv start n"
  by (drule update_neighbors_sound, cases n)
     (auto simp: free_def nodes_def node_at_def type_of_def split: if_splits)

lemma level_inv_relax:
  assumes sc: "score_inv lv tr tc start s" and lv: "level_inv lv start goal s"
    and n: "n \<in> set (update_neighbors lv tr tc cur)"
  shows "level_inv lv start goal (relax goal cur s n)"
proof -
  from relax_level_cases[of goal cur s n]
  have fr: "frames (relax goal cur s n) = frames s"
    and alt: "level (relax goal cur s n) = level s \<or>
      (gScore s cur + 1 < gScore s n \<and> level (relax goal cur s n) = set_type (level s) n OPEN)"
    by blast+
  from alt show ?thesis
  proof
    assume "level (relax goal cur s n) = level s"
    with fr lv show ?thesis by (simp add: level_inv_def)
  next
    assume a: "gScore s cur + 1 < gScore s n \<and> level (relax goal cur s n) = set_type (level s) n OPEN"
    from sc have "gScore s start = 0" unfolding score_inv_def by blast
    with a have "n \<noteq> start" by auto
    moreover from n have "free lv start n" by (rule update_neighbors_free)
    moreover from lv have "level_ok lv start goal (level s)" by (simp add: level_inv_def)
    ultimately have "level_ok lv start goal (set_type (level s) n OPEN)"
      by (intro level_ok_set_type)
    with a fr lv show ?thesis by (simp add: level_inv_def)
  qed
qed

lemma level_inv_expand:
  assumes sc: "score_inv lv tr tc start s" and lv: "level_inv lv start goal s"
    and cur: "free lv start cur"
  shows "level_inv lv start goal (expand lv tr tc start goal cur s)"
proof -
  let ?s2 = "foldl (relax goal cur) s (update_neighbors lv tr tc cur)"
  have "score_inv lv tr tc start ?s2 \<and> level_inv lv start goal ?s2"
    using sc lv
    by (intro foldl_relax_induct[where P = "\<lambda>s. score_inv lv tr tc start s \<and> level_inv lv start goal s"])
       (auto intro: score_inv_relax level_inv_relax)
  then have l2: "level_inv lv start goal ?s2" ..
  let ?s3 = "if visualize ?s2 then draw ?s2 else ?s2"
  from l2 have l3: "level_inv lv start goal ?s3" by (simp add: level_inv_def draw_def)
  show ?thesis
  proof (cases "cur = start")
    case True
    then have "expand lv tr tc start goal cur s = ?s3" by (simp add: expand_def Let_def)
    with l3 show ?thesis by (simp only:)
  next
    case False
    from l3 have "level_ok lv start goal (level ?s3)" by (simp add: level_inv_def)
    from level_ok_set_type[OF this False cur] l3 False show ?thesis
      by (simp add: expand_def Let_def level_inv_def)
  qed
qed

lemma reachable_level_inv:
  assumes "type_of lv start = START"
  shows "reachable lv tr tc start goal s \<Longrightarrow> level_inv lv start goal s"
proof (induction rule: reachable.induct)
  case reach_init
  from assms show ?case by (simp add: level_inv_def level_ok_def init_def)
next
  case (reach_step s evs s')
  from reach_step(2) obtain e q v where
    h: "node e \<in> openNodesHash s" and
    s': "s' = expand lv tr tc start goal (node e)
        (s\<lparr> visualize := v, openNodes := q, openNodesHash := openNodesHash s - {node e} \<rparr>)"
    by (rule step_Continue)
  let ?s1 = "s\<lparr> visualize := v, openNodes := q, openNodesHash := openNodesHash s - {node e} \<rparr>"
  have sc: "score_inv lv tr tc start s" using reach_step(1) by (rule reachable_score_inv)
  then have sc1: "score_inv lv tr tc start ?s1" by (rule score_inv_fields[rotated 3]) auto
  from sc h have "gScore s (node e) < \<infinity>" unfolding score_inv_def by blast
  with sc have fr: "free lv start (node e)" by (rule score_inv_free)
  from reach_step.IH have "level_inv lv start goal ?s1" by (simp add: level_inv_def)
  from level_inv_expand[OF sc1 this fr] show ?case unfolding s' .
qed

lemma found_walk:
  assumes r: "reachable lv tr tc start goal sf" and g: "goal \<in> openNodesHash sf"
    and Q0: "Q (set_type (level sf) goal GOAL)" "\<forall>x \<in> set (frames sf). Q x"
    and Qstep: "\<And>x m c. Q x \<Longrightarrow> came_from sf m = Some c \<Longrightarrow> Q (mark x c)"
  shows "\<exists>lvl fr path.
      found goal (sf\<lparr> visualize := v, openNodes := q, openNodesHash := openNodesHash sf - {goal} \<rparr>) =
        Some (Return_True (sf\<lparr> visualize := v, openNodes := q,
                openNodesHash := openNodesHash sf - {goal}, level := lvl, frames := fr \<rparr>) path) \<and>
      path \<noteq> [] \<and> hd path = start \<and> last path = goal \<and>
      successively (\<lambda>a b. came_from sf b = Some a) path \<and> Q lvl \<and> (\<forall>x \<in> set fr. Q x)"
proof -
  have inv: "score_inv lv tr tc start sf" using r by (rule reachable_score_inv)
  with g have fin: "gScore sf goal < \<infinity>" unfolding score_inv_def by blast
  have dec: "\<And>m c. came_from sf m = Some c \<Longrightarrow> gScore sf c < gScore sf m"
    using inv by (rule score_inv_decreasing)
  have "\<exists>lvl fr p.
      reconstruct_path (came_from sf) goal (set_type (level sf) goal GOAL, frames sf, [goal]) =
        Some (lvl, fr, p @ [goal]) \<and>
      came_from sf (hd (p @ [goal])) = None \<and>
      gScore sf (hd (p @ [goal])) \<le> gScore sf goal \<and>
      successively (\<lambda>a b. came_from sf b = Some a) (p @ [goal]) \<and>
      Q lvl \<and> (\<forall>x \<in> set fr. Q x)"
  proof (rule reconstruct_path_walk[where g = "gScore sf" and Q = Q])
    show "\<And>m c. came_from sf m = Some c \<Longrightarrow> gScore sf c < gScore sf m" by (rule dec)
    show "\<And>x m c. Q x \<Longrightarrow> came_from sf m = Some c \<Longrightarrow> Q (mark x c)" by (rule Qstep)
    show "gScore sf goal < \<infinity>" by (rule fin)
    show "Q (set_type (level sf) goal GOAL)" by (rule Q0(1))
    show "\<forall>x \<in> set (frames sf). Q x" by (rule Q0(2))
  qed
  then obtain lvl fr p where
    rp: "reconstruct_path (came_from sf) goal (set_type (level sf) goal GOAL, frames sf, [goal]) =
       Some (lvl, fr, p @ [goal])"
    and e: "came_from sf (hd (p @ [goal])) = None"
    and le: "gScore sf (hd (p @ [goal])) \<le> gScore sf goal"
    and su: "successively (\<lambda>a b. came_from sf b = Some a) (p @ [goal])"
    and Q: "Q lvl" "\<forall>x \<in> set fr. Q x" by (elim exE conjE)
  from le fin have "gScore sf (hd (p @ [goal])) < \<infinity>" by (rule le_less_trans)
  with inv e have hd: "hd (p @ [goal]) = start" by (intro score_inv_root)
  have "found goal (sf\<lparr> visualize := v, openNodes := q, openNodesHash := openNodesHash sf - {goal} \<rparr>) =
        Some (Return_True (sf\<lparr> visualize := v, openNodes := q,
                openNodesHash := openNodesHash sf - {goal}, level := lvl, frames := fr \<rparr>) (p @ [goal]))"
    by (simp add: found_def rp)
  with hd su Q show ?thesis by (intro exI[of _ lvl] exI[of _ fr] exI[of _ "p @ [goal]"]) simp
qed

lemma find_path_result:
  "\<exists>sf ev. reachable lv tr tc start goal sf \<and>
     step lv tr tc start goal ev sf = Finish (find_path lv tr tc start goal evs) \<and>
     (no_exit evs \<longrightarrow> poll ev (visualize sf) \<noteq> None)"
  unfolding find_path_def by (rule find_loop_finish) (rule reach_init)

lemma find_path_Return_True:
  assumes "find_path lv tr tc start goal evs = Some (Return_True s path)"
  obtains sf v q where "reachable lv tr tc start goal sf" "goal \<in> openNodesHash sf"
    "found goal (sf\<lparr> visualize := v, openNodes := q, openNodesHash := openNodesHash sf - {goal} \<rparr>)
       = Some (Return_True s path)"
proof -
  from find_path_result[of lv tr tc start goal evs] assms obtain sf ev where
    r: "reachable lv tr tc start goal sf" and
    st: "step lv tr tc start goal ev sf = Finish (Some (Return_True s path))" by auto
  from step_Finish[OF st] obtain e q v where
    "goal \<in> openNodesHash sf"
    "Some (Return_True s path) =
       found goal (sf\<lparr> visualize := v, openNodes := q, openNodesHash := openNodesHash sf - {goal} \<rparr>)"
    by auto
  with r that show ?thesis by metis
qed

lemma find_path_Return_False:
  assumes "find_path lv tr tc start goal evs = Some (Return_False s)"
  shows "reachable lv tr tc start goal s \<and> openNodes s = []"
proof -
  from find_path_result[of lv tr tc start goal evs] assms obtain sf ev where
    r: "reachable lv tr tc start goal sf" and
    st: "step lv tr tc start goal ev sf = Finish (Some (Return_False s))" by auto
  from step_Finish[OF st] have "openNodes sf = [] \<and> s = sf"
    by (auto simp: found_def split: option.splits)
  with r show ?thesis by simp
qed

lemma successively_tail_pred:
  "successively R xs \<Longrightarrow> x \<in> set (tl xs) \<Longrightarrow> \<exists>a. R a x"
proof (induction xs rule: induct_list012)
  case 1
  then show ?case by simp
next
  case (2 y)
  then show ?case by simp
next
  case (3 y z zs)
  then show ?case by auto
qed

lemma grid_line_run:
  "case find_path grid_line 1 3 (0, 0) (0, 2) [] of
     Some (Return_True s p) \<Rightarrow> p = [(0, 0), (0, 1), (0, 2)] \<and> level s = [[START, PATH, GOAL]]
   | _ \<Rightarrow> False"
  by code_simp

lemma grid_wall_run:
  "case find_path grid_wall 2 2 (0, 0) (1, 1) [] of
     Some (Return_True s p) \<Rightarrow> p = [(0, 0), (1, 0), (1, 1)] \<and> level s = [[START, OBSTACLE], [PATH, GOAL]]
   | _ \<Rightarrow> False"
  by code_simp

section \<open>The path returned\<close>

text \<open>
  Claim C7. When \<open>find_path\<close> returns \<open>True\<close>, for a start node that is a node of the
  level and not an obstacle, the path it marks (the nodes \<open>reconstruct_path\<close> visits,
  from the last one to the goal) begins at the start, ends at the goal, every two
  consecutive nodes of it are 4-adjacent, and none of its nodes is an obstacle of the
  level.
\<close>

theorem returned_path_valid:
  assumes "find_path lv tr tc start goal evs = Some (Return_True s path)"
    and "start \<in> nodes lv" and "type_of lv start \<noteq> OBSTACLE"
  shows "hd path = start \<and> last path = goal \<and> successively adjacent path \<and>
         (\<forall>p \<in> set path. p \<in> nodes lv \<and> type_of lv p \<noteq> OBSTACLE)"
proof -
  from assms(1) obtain sf v q where
    r: "reachable lv tr tc start goal sf" and g: "goal \<in> openNodesHash sf" and
    f: "found goal (sf\<lparr> visualize := v, openNodes := q, openNodesHash := openNodesHash sf - {goal} \<rparr>)
       = Some (Return_True s path)"
    by (rule find_path_Return_True)
  from found_walk[OF r g, where Q = "\<lambda>_. True" and v = v and q = q] f
  have ne: "path \<noteq> []" and hd: "hd path = start" and la: "last path = goal"
    and su: "successively (\<lambda>a b. came_from sf b = Some a) path" by auto
  have inv: "score_inv lv tr tc start sf" using r by (rule reachable_score_inv)
  have nb: "b \<in> set (update_neighbors lv tr tc a)" if "came_from sf b = Some a" for a b
    using inv that unfolding score_inv_def by blast
  have "successively adjacent path"
    using su by (rule successively_mono) (auto dest: nb update_neighbors_sound)
  moreover have "p \<in> nodes lv \<and> type_of lv p \<noteq> OBSTACLE" if "p \<in> set path" for p
  proof (cases "p = start")
    case True
    with assms(2,3) show ?thesis by simp
  next
    case False
    from ne have "path = hd path # tl path" by simp
    with that hd False have "p \<in> set (tl path)" by (metis set_ConsD)
    from successively_tail_pred[OF su this] obtain a where "came_from sf p = Some a" by blast
    from update_neighbors_free[OF nb[OF this], of start] False show ?thesis
      by (simp add: free_def)
  qed
  ultimately show ?thesis using hd la by blast
qed

theorem returned_path_valid_witness:
  "\<exists>s. find_path grid_line 1 3 (0, 0) (0, 2) [] = Some (Return_True s [(0, 0), (0, 1), (0, 2)]) \<and>
       (0, 0) \<in> nodes grid_line \<and> type_of grid_line (0, 0) \<noteq> OBSTACLE \<and>
       successively adjacent [(0, 0), (0, 1), (0, 2)]"
proof -
  from grid_line_run obtain s where
    f: "find_path grid_line 1 3 (0, 0) (0, 2) [] = Some (Return_True s [(0, 0), (0, 1), (0, 2)])"
    by (auto split: option.splits outcome.splits)
  have n: "(0, 0) \<in> nodes grid_line" by (simp add: nodes_def grid_line_def)
  have t: "type_of grid_line (0, 0) \<noteq> OBSTACLE" by (simp add: type_of_def grid_line_def)
  from returned_path_valid[OF f n t] f n t show ?thesis by blast
qed

text \<open>
  Claim C10, as stated, fails: the start cell does not always retain its state. When
  start and goal are the same node, the branch \<open>current == goal\<close> calls \<open>set_goal\<close> on
  it, and the level of one \<open>START\<close> cell ends as one \<open>GOAL\<close> cell.
\<close>

theorem start_retyped_as_goal:
  "type_of [[START]] (0, 0) = START \<and>
   final_level (find_path [[START]] 1 1 (0, 0) (0, 0) []) = Some [[GOAL]]"
  by code_simp

text \<open>
  Claim C10, amended. For a start node of type \<open>START\<close>: in every state at the head
  of the loop, in the state \<open>find_path\<close> returns with, and in every frame handed to
  \<open>draw\<close> up to there (\<open>reconstruct_path\<close> draws after each node it marks), every
  obstacle of the level is still an obstacle and the start node is not \<open>OPEN\<close>,
  \<open>CLOSED\<close> or \<open>PATH\<close>; when start and goal are different nodes, the start node
  keeps the type \<open>START\<close>.
\<close>

theorem obstacles_and_start_kept:
  assumes "type_of lv start = START"
    and "reachable lv tr tc start goal s \<or>
         find_path lv tr tc start goal evs = Some (Return_True s path) \<or>
         find_path lv tr tc start goal evs = Some (Return_False s)"
    and "g = level s \<or> g \<in> set (frames s)"
  shows "(\<forall>p \<in> nodes lv. type_of lv p = OBSTACLE \<longrightarrow> type_of g p = OBSTACLE) \<and>
         type_of g start \<noteq> OPEN \<and> type_of g start \<noteq> CLOSED \<and> type_of g start \<noteq> PATH \<and>
         (start \<noteq> goal \<longrightarrow> type_of g start = START)"
proof -
  have reach: "level_inv lv start goal s'" if "reachable lv tr tc start goal s'" for s'
    using assms(1) that by (rule reachable_level_inv)
  have "level_inv lv start goal s"
  proof -
    consider "reachable lv tr tc start goal s"
      | "find_path lv tr tc start goal evs = Some (Return_True s path)"
      | "find_path lv tr tc start goal evs = Some (Return_False s)"
      using assms(2) by blast
    then show ?thesis
    proof cases
      case 1
      then show ?thesis by (rule reach)
    next
      case 3
      from find_path_Return_False[OF 3] show ?thesis by (auto intro: reach)
    next
      case 2
      then obtain sf v q where
        r: "reachable lv tr tc start goal sf" and gh: "goal \<in> openNodesHash sf" and
        f: "found goal (sf\<lparr> visualize := v, openNodes := q, openNodesHash := openNodesHash sf - {goal} \<rparr>)
           = Some (Return_True s path)"
        by (rule find_path_Return_True)
      have inv: "score_inv lv tr tc start sf" using r by (rule reachable_score_inv)
      with gh have "gScore sf goal < \<infinity>" unfolding score_inv_def by blast
      with inv have fg: "free lv start goal" by (rule score_inv_free)
      from reach[OF r] have l: "level_ok lv start goal (level sf)"
        and fr: "\<forall>x \<in> set (frames sf). level_ok lv start goal x" by (simp_all add: level_inv_def)
      from assms(1) have "type_of lv start \<noteq> OBSTACLE" by simp
      from level_ok_set_goal[OF l this fg]
      have q0: "level_ok lv start goal (set_type (level sf) goal GOAL)" .
      have qs: "\<And>x m c. level_ok lv start goal x \<Longrightarrow> came_from sf m = Some c
          \<Longrightarrow> level_ok lv start goal (mark x c)"
        using inv by (blast intro: level_ok_mark score_inv_pred_free)
      have "\<exists>lvl fr path'.
          found goal (sf\<lparr> visualize := v, openNodes := q, openNodesHash := openNodesHash sf - {goal} \<rparr>) =
            Some (Return_True (sf\<lparr> visualize := v, openNodes := q,
                    openNodesHash := openNodesHash sf - {goal}, level := lvl, frames := fr \<rparr>) path') \<and>
          path' \<noteq> [] \<and> hd path' = start \<and> last path' = goal \<and>
          successively (\<lambda>a b. came_from sf b = Some a) path' \<and>
          level_ok lv start goal lvl \<and> (\<forall>x \<in> set fr. level_ok lv start goal x)"
        using r gh q0 fr qs by (rule found_walk)
      with f show ?thesis by (auto simp: level_inv_def)
    qed
  qed
  with assms(3) have "level_ok lv start goal g" by (auto simp: level_inv_def)
  then show ?thesis unfolding level_ok_def by auto
qed

theorem obstacles_and_start_kept_witness:
  "type_of grid_wall (0, 0) = START \<and>
   (\<exists>s. find_path grid_wall 2 2 (0, 0) (1, 1) [] = Some (Return_True s [(0, 0), (1, 0), (1, 1)]) \<and>
        type_of (level s) (0, 1) = OBSTACLE \<and> type_of (level s) (0, 0) = START)"
proof -
  from grid_wall_run obtain s where
    f: "find_path grid_wall 2 2 (0, 0) (1, 1) [] = Some (Return_True s [(0, 0), (1, 0), (1, 1)])"
    by (auto split: option.splits outcome.splits)
  have t: "type_of grid_wall (0, 0) = START" by (simp add: type_of_def grid_wall_def)
  have o: "(0, 1) \<in> nodes grid_wall" "type_of grid_wall (0, 1) = OBSTACLE"
    by (simp_all add: nodes_def type_of_def grid_wall_def)
  from obstacles_and_start_kept[OF t, of 2 2 "(1, 1)" s "[]" "[(0, 0), (1, 0), (1, 1)]" "level s"] f o t
  show ?thesis by auto
qed

section \<open>Exhausting the queue\<close>

lemma closed_inv_init: "closed_inv lv tr tc start {} (init lv start goal)"
  by (simp add: closed_inv_def init_def)

lemma closed_inv_pop:
  assumes "closed_inv lv tr tc start {} s"
  shows "closed_inv lv tr tc start {cur}
     (s\<lparr> visualize := v, openNodes := q, openNodesHash := openNodesHash s - {cur} \<rparr>)"
  using assms unfolding closed_inv_def
  by (auto simp del: not_infinity_eq enat_ord_simps(4))

lemma relax_effect:
  "\<not> gScore s cur + 1 < gScore s n \<Longrightarrow> relax goal cur s n = s"
  "gScore s cur + 1 < gScore s n \<Longrightarrow>
     gScore (relax goal cur s n) = (gScore s)(n := gScore s cur + 1)"
  "gScore s cur + 1 < gScore s n \<Longrightarrow> n \<in> openNodesHash s \<Longrightarrow>
     level (relax goal cur s n) = level s \<and> openNodesHash (relax goal cur s n) = openNodesHash s"
  "gScore s cur + 1 < gScore s n \<Longrightarrow> n \<notin> openNodesHash s \<Longrightarrow>
     level (relax goal cur s n) = set_type (level s) n OPEN \<and>
     openNodesHash (relax goal cur s n) = insert n (openNodesHash s)"
  by (simp_all add: relax_def Let_def)

lemma closed_inv_relax:
  assumes sc: "score_inv lv tr tc start s" and ci: "closed_inv lv tr tc start {cur} s"
    and n: "n \<in> set (update_neighbors lv tr tc cur)"
  shows "closed_inv lv tr tc start {cur} (relax goal cur s n)"
proof (cases "gScore s cur + 1 < gScore s n")
  case False
  with ci show ?thesis by (simp add: relax_effect(1))
next
  case lt: True
  let ?s' = "relax goal cur s n"
  from ci have sh: "map length (level s) = map length lv"
    and ch: "cur \<notin> openNodesHash s"
    and mk: "\<And>m. gScore s m < \<infinity> \<Longrightarrow> m \<noteq> start \<Longrightarrow> m \<noteq> cur \<Longrightarrow>
         type_of (level s) m = (if m \<in> openNodesHash s then OPEN else CLOSED)"
    and cl: "\<And>m k. gScore s m < \<infinity> \<Longrightarrow> m \<notin> openNodesHash s \<Longrightarrow> m \<noteq> cur \<Longrightarrow>
         k \<in> set (update_neighbors lv tr tc m) \<Longrightarrow> gScore s k < \<infinity>"
    unfolding closed_inv_def by (auto simp del: not_infinity_eq enat_ord_simps(4))
  from sc have hf: "\<And>m. m \<in> openNodesHash s \<Longrightarrow> gScore s m < \<infinity>"
    and s0: "gScore s start = 0" unfolding score_inv_def by blast+
  from lt have nc: "n \<noteq> cur" using enat_add1_less_self by auto
  from lt s0 have ns: "n \<noteq> start" by auto
  from lt have fin: "gScore s cur + 1 < \<infinity>" by (cases "gScore s cur + 1") auto
  have gs: "gScore ?s' = (gScore s)(n := gScore s cur + 1)" using lt by (rule relax_effect(2))
  have nn: "n \<in> nodes (level s)" using update_neighbors_nodes[OF n] nodes_shape[OF sh] by simp
  have fin': "gScore ?s' m < \<infinity> \<longleftrightarrow> m = n \<or> gScore s m < \<infinity>" for m
    using gs fin by simp
  show ?thesis
  proof (cases "n \<in> openNodesHash s")
    case True
    from relax_effect(3)[OF lt True] have lv': "level ?s' = level s"
      and hs': "openNodesHash ?s' = openNodesHash s" by simp_all
    from hf[OF True] have "gScore s n < \<infinity>" .
    with fin' have same: "gScore ?s' m < \<infinity> \<longleftrightarrow> gScore s m < \<infinity>" for m by auto
    show ?thesis unfolding closed_inv_def lv' hs' same
      using ci unfolding closed_inv_def by simp
  next
    case False
    from relax_effect(4)[OF lt False] have lv': "level ?s' = set_type (level s) n OPEN"
      and hs': "openNodesHash ?s' = insert n (openNodesHash s)" by simp_all
    have 1: "map length (level ?s') = map length lv" using sh lv' by (simp add: map_length_set_type)
    have 2: "{cur} \<inter> openNodesHash ?s' = {}" using ch nc hs' by simp
    have 3: "type_of (level ?s') m = (if m \<in> openNodesHash ?s' then OPEN else CLOSED)"
      if "gScore ?s' m < \<infinity>" "m \<noteq> start" "m \<notin> {cur}" for m
    proof (cases "m = n")
      case True
      with lv' hs' nn show ?thesis by (simp add: type_of_set_type)
    next
      case mn: False
      with that fin' have "gScore s m < \<infinity>" by simp
      from mk[OF this that(2)] that(3) mn lv' hs' show ?thesis by (simp add: type_of_set_type)
    qed
    have 4: "gScore ?s' k < \<infinity>"
      if "gScore ?s' m < \<infinity>" "m \<notin> openNodesHash ?s'" "m \<notin> {cur}"
        "k \<in> set (update_neighbors lv tr tc m)" for m k
    proof -
      from that(2) hs' have mn: "m \<noteq> n" and mh: "m \<notin> openNodesHash s" by auto
      with that(1) fin' have "gScore s m < \<infinity>" by simp
      from cl[OF this mh _ that(4)] that(3) have "gScore s k < \<infinity>" by simp
      with fin' show ?thesis by simp
    qed
    from 1 2 3 4 show ?thesis unfolding closed_inv_def by blast
  qed
qed

lemma foldl_relax_neighbors:
  "gScore (foldl (relax goal cur) s ns) cur = gScore s cur \<and>
   (\<forall>m \<in> set ns. gScore (foldl (relax goal cur) s ns) m \<le> gScore s cur + 1)"
proof (induction ns rule: rev_induct)
  case Nil
  show ?case by simp
next
  case (snoc x xs)
  let ?t = "foldl (relax goal cur) s xs"
  from snoc have c: "gScore ?t cur = gScore s cur"
    and b: "\<forall>m \<in> set xs. gScore ?t m \<le> gScore s cur + 1" by simp_all
  show ?case
  proof (cases "gScore ?t cur + 1 < gScore ?t x")
    case False
    then have "relax goal cur ?t x = ?t" by (rule relax_effect(1))
    with False c b show ?thesis by (auto simp: not_less)
  next
    case True
    then have xc: "x \<noteq> cur" using enat_add1_less_self by auto
    from relax_effect(2)[OF True] have "gScore (relax goal cur ?t x) = (gScore ?t)(x := gScore ?t cur + 1)" .
    with c b xc True show ?thesis by (auto simp: less_imp_le)
  qed
qed

lemma closed_inv_expand:
  assumes sc: "score_inv lv tr tc start s" and ci: "closed_inv lv tr tc start {cur} s"
    and fin: "gScore s cur < \<infinity>"
  shows "closed_inv lv tr tc start {} (expand lv tr tc start goal cur s)"
proof -
  let ?s2 = "foldl (relax goal cur) s (update_neighbors lv tr tc cur)"
  have "score_inv lv tr tc start ?s2 \<and> closed_inv lv tr tc start {cur} ?s2"
    using sc ci
    by (intro foldl_relax_induct[where P = "\<lambda>s. score_inv lv tr tc start s \<and> closed_inv lv tr tc start {cur} s"])
       (auto intro: score_inv_relax closed_inv_relax)
  then have sc2: "score_inv lv tr tc start ?s2" and ci2: "closed_inv lv tr tc start {cur} ?s2"
    by blast+
  from foldl_relax_neighbors[of goal cur s "update_neighbors lv tr tc cur"]
  have gc: "gScore ?s2 cur = gScore s cur"
    and gb: "\<And>m. m \<in> set (update_neighbors lv tr tc cur) \<Longrightarrow> gScore ?s2 m \<le> gScore s cur + 1"
    by blast+
  from fin have fin1: "gScore s cur + 1 < \<infinity>" by (cases "gScore s cur") (auto simp: one_enat_def)
  have nb: "gScore ?s2 m < \<infinity>" if "m \<in> set (update_neighbors lv tr tc cur)" for m
    using gb[OF that] fin1 by (rule le_less_trans)
  from ci2 have sh: "map length (level ?s2) = map length lv"
    and ch: "cur \<notin> openNodesHash ?s2"
    and mk: "\<And>m. gScore ?s2 m < \<infinity> \<Longrightarrow> m \<noteq> start \<Longrightarrow> m \<noteq> cur \<Longrightarrow>
         type_of (level ?s2) m = (if m \<in> openNodesHash ?s2 then OPEN else CLOSED)"
    and cl: "\<And>m k. gScore ?s2 m < \<infinity> \<Longrightarrow> m \<notin> openNodesHash ?s2 \<Longrightarrow> m \<noteq> cur \<Longrightarrow>
         k \<in> set (update_neighbors lv tr tc m) \<Longrightarrow> gScore ?s2 k < \<infinity>"
    unfolding closed_inv_def by (auto simp del: not_infinity_eq enat_ord_simps(4))
  let ?s4 = "expand lv tr tc start goal cur s"
  have g4: "gScore ?s4 = gScore ?s2" and h4: "openNodesHash ?s4 = openNodesHash ?s2"
    by (simp_all add: expand_fields)
  have l4: "level ?s4 = (if cur \<noteq> start then set_type (level ?s2) cur CLOSED else level ?s2)"
    by (simp add: expand_def Let_def draw_def)
  have lo: "type_of (level ?s4) m = type_of (level ?s2) m" if "m \<noteq> cur" for m
    unfolding l4 using that by (simp add: type_of_set_type)
  have 1: "map length (level ?s4) = map length lv"
    unfolding l4 using sh by (auto simp: map_length_set_type)
  have 3: "type_of (level ?s4) m = (if m \<in> openNodesHash ?s4 then OPEN else CLOSED)"
    if "gScore ?s4 m < \<infinity>" "m \<noteq> start" for m
  proof (cases "m = cur")
    case True
    from sc2 that(1) True g4 have "free lv start cur" by (intro score_inv_free[of lv tr tc start ?s2]) simp_all
    with that(2) True have "cur \<in> nodes lv" by (simp add: free_def)
    with nodes_shape[OF sh] have "cur \<in> nodes (level ?s2)" by simp
    with True that(2) l4 h4 ch show ?thesis by (simp add: type_of_set_type)
  next
    case False
    from that(1) g4 have "gScore ?s2 m < \<infinity>" by simp
    from mk[OF this that(2) False] lo[OF False] h4 show ?thesis by simp
  qed
  have 4: "gScore ?s4 k < \<infinity>"
    if "gScore ?s4 m < \<infinity>" "m \<notin> openNodesHash ?s4" "k \<in> set (update_neighbors lv tr tc m)" for m k
  proof (cases "m = cur")
    case True
    with that(3) nb g4 show ?thesis by simp
  next
    case False
    from that g4 h4 have "gScore ?s2 m < \<infinity>" "m \<notin> openNodesHash ?s2" by simp_all
    from cl[OF this False that(3)] g4 show ?thesis by simp
  qed
  from 1 3 4 show ?thesis unfolding closed_inv_def by (auto simp del: not_infinity_eq enat_ord_simps(4))
qed

lemma reachable_closed_inv:
  "reachable lv tr tc start goal s \<Longrightarrow> closed_inv lv tr tc start {} s"
proof (induction rule: reachable.induct)
  case reach_init
  show ?case by (rule closed_inv_init)
next
  case (reach_step s evs s')
  from reach_step(2) obtain e q v where
    h: "node e \<in> openNodesHash s" and
    s': "s' = expand lv tr tc start goal (node e)
        (s\<lparr> visualize := v, openNodes := q, openNodesHash := openNodesHash s - {node e} \<rparr>)"
    by (rule step_Continue)
  let ?s1 = "s\<lparr> visualize := v, openNodes := q, openNodesHash := openNodesHash s - {node e} \<rparr>"
  have sc: "score_inv lv tr tc start s" using reach_step(1) by (rule reachable_score_inv)
  then have sc1: "score_inv lv tr tc start ?s1" by (rule score_inv_fields[rotated 3]) auto
  from sc h have "gScore s (node e) < \<infinity>" unfolding score_inv_def by blast
  then have f1: "gScore ?s1 (node e) < \<infinity>" by simp
  from closed_inv_pop[OF reach_step.IH] have "closed_inv lv tr tc start {node e} ?s1" .
  from closed_inv_expand[OF sc1 this f1] show ?case unfolding s' .
qed

lemma look_mono: "look lv g r c acc = Some acc' \<Longrightarrow> set acc \<subseteq> set acc'"
  by (auto simp: look_def split: if_splits option.splits)

lemma looks_mono: "set acc \<subseteq> set (looks lv tests acc)"
proof (induction lv tests acc rule: looks.induct)
  case (1 level acc)
  show ?case by simp
next
  case (2 level guard r c rest acc)
  show ?case
  proof (cases "look level guard r c acc")
    case None
    then show ?thesis by simp
  next
    case (Some acc')
    from look_mono[OF Some] 2[OF Some] Some show ?thesis by auto
  qed
qed

lemma looks_complete:
  "\<forall>(g, r, c) \<in> set tests. g \<longrightarrow> node_at lv r c \<noteq> None \<Longrightarrow>
   (g, r, c) \<in> set tests \<Longrightarrow> g \<Longrightarrow> node_at lv r c \<noteq> Some OBSTACLE \<Longrightarrow>
   (r, c) \<in> set (looks lv tests acc)"
proof (induction lv tests acc rule: looks.induct)
  case (1 level acc)
  then show ?case by simp
next
  case (2 level guard r' c' rest acc)
  from 2(2) have ok: "guard \<longrightarrow> node_at level r' c' \<noteq> None" by simp
  then obtain acc' where a: "look level guard r' c' acc = Some acc'"
    by (cases guard; cases "node_at level r' c'") (auto simp: look_def)
  show ?case
  proof (cases "(g, r, c) = (guard, r', c')")
    case True
    with 2(4,5) a have "(r, c) \<in> set acc'"
      by (cases "node_at level r' c'") (auto simp: look_def split: if_splits)
    with looks_mono[of acc' level rest] a show ?thesis by auto
  next
    case False
    with 2(3) have "(g, r, c) \<in> set rest" by auto
    moreover from 2(2) have "\<forall>(g, r, c) \<in> set rest. g \<longrightarrow> node_at level r c \<noteq> None" by simp
    ultimately have "(r, c) \<in> set (looks level rest acc')"
      using 2(4,5) by (intro 2(1)[OF a])
    with a show ?thesis by simp
  qed
qed

lemma update_neighbors_complete:
  assumes rect: "rectangular lv tr tc" and a: "a \<in> nodes lv"
    and st: "passable_step lv a b"
  shows "b \<in> set (update_neighbors lv tr tc a)"
proof -
  obtain row col where ar: "a = (row, col)" by (cases a)
  obtain r c where br: "b = (r, c)" by (cases b)
  from rect have len: "length lv = tr" and wid: "\<And>i. i < tr \<Longrightarrow> length (lv ! i) = tc"
    by (auto simp: rectangular_def)
  from a ar len wid have rb: "row < tr" "col < tc" by (auto simp: nodes_def)
  from st br len wid have bb: "r < tr" "c < tc" and ty: "lv ! r ! c \<noteq> OBSTACLE"
    by (auto simp: passable_step_def nodes_def type_of_def)
  have na: "node_at lv i j \<noteq> None" if "i < tr" "j < tc" for i j
    using that len wid by (simp add: node_at_def)
  let ?tests = "[(row > 0, row - 1, col), (row + 1 < tr, row + 1, col),
           (col > 0, row, col - 1), (col + 1 < tc, row, col + 1)]"
  have n1: "row > 0 \<longrightarrow> node_at lv (row - 1) col \<noteq> None"
    using rb na[of "row - 1" col] by (simp del: not_None_eq)
  have n2: "row + 1 < tr \<longrightarrow> node_at lv (row + 1) col \<noteq> None"
    using rb na[of "row + 1" col] by (simp del: not_None_eq)
  have n3: "col > 0 \<longrightarrow> node_at lv row (col - 1) \<noteq> None"
    using rb na[of row "col - 1"] by (simp del: not_None_eq)
  have n4: "col + 1 < tc \<longrightarrow> node_at lv row (col + 1) \<noteq> None"
    using rb na[of row "col + 1"] by (simp del: not_None_eq)
  have ok: "\<forall>(g, r, c) \<in> set ?tests. g \<longrightarrow> node_at lv r c \<noteq> None"
    using n1 n2 n3 n4 by (simp del: not_None_eq)
  from st ar br have "adjacent (row, col) (r, c)" by (simp add: passable_step_def)
  then consider "col = c" "row = r + 1" | "col = c" "r = row + 1"
    | "row = r" "col = c + 1" | "row = r" "c = col + 1"
    unfolding adjacent_def by fastforce
  then have g: "(True, r, c) \<in> set ?tests"
  proof cases
    case 1
    then have "(row > 0, row - 1, col) = (True, r, c)" by simp
    then show ?thesis by (metis list.set_intros(1))
  next
    case 2
    with bb have "(row + 1 < tr, row + 1, col) = (True, r, c)" by simp
    then show ?thesis by (metis list.set_intros(1,2))
  next
    case 3
    then have "(col > 0, row, col - 1) = (True, r, c)" by simp
    then show ?thesis by (metis list.set_intros(1,2))
  next
    case 4
    with bb have "(col + 1 < tc, row, col + 1) = (True, r, c)" by simp
    then show ?thesis by (metis list.set_intros(1,2))
  qed
  from bb ty len wid have "node_at lv r c \<noteq> Some OBSTACLE" by (simp add: node_at_def)
  from looks_complete[OF ok g _ this, of "[]"] have "(r, c) \<in> set (looks lv ?tests [])" by simp
  then show ?thesis unfolding update_neighbors_def ar br by simp
qed

lemma scored_connected:
  assumes inv: "score_inv lv tr tc start s"
  shows "gScore s n < \<infinity> \<Longrightarrow> connected lv start n"
proof (induction "the_enat (gScore s n)" arbitrary: n rule: less_induct)
  case less
  show ?case
  proof (cases "n = start")
    case True
    then show ?thesis by (simp add: connected_def)
  next
    case False
    with inv less.prems obtain c where c: "came_from s n = Some c"
      unfolding score_inv_def by blast
    from score_inv_decreasing[OF inv c] less.prems
    have lt: "the_enat (gScore s c) < the_enat (gScore s n)" and fin: "gScore s c < \<infinity>"
      by (cases "gScore s c"; cases "gScore s n"; simp)+
    from less.hyps[OF lt fin] have "connected lv start c" .
    moreover from inv c have "n \<in> set (update_neighbors lv tr tc c)"
      unfolding score_inv_def by blast
    from update_neighbors_sound[OF this] update_neighbors_free[OF this, of start] False
    have "passable_step lv c n" by (simp add: passable_step_def free_def)
    ultimately show ?thesis unfolding connected_def by (rule rtranclp.rtrancl_into_rtrancl)
  qed
qed

lemma connected_scored:
  assumes rect: "rectangular lv tr tc" and st: "start \<in> nodes lv"
    and sc: "score_inv lv tr tc start s" and ci: "closed_inv lv tr tc start {} s"
    and em: "openNodesHash s = {}"
  shows "connected lv start n \<Longrightarrow> gScore s n < \<infinity> \<and> n \<in> nodes lv"
  unfolding connected_def
proof (induction rule: rtranclp_induct)
  case base
  from sc have "gScore s start = 0" unfolding score_inv_def by blast
  with st show ?case by simp
next
  case (step a b)
  from step.IH have fa: "gScore s a < \<infinity>" and na: "a \<in> nodes lv" by blast+
  from update_neighbors_complete[OF rect na step.hyps(2)]
  have b: "b \<in> set (update_neighbors lv tr tc a)" .
  from ci have "\<And>m k. gScore s m < \<infinity> \<Longrightarrow> m \<notin> openNodesHash s \<Longrightarrow>
      k \<in> set (update_neighbors lv tr tc m) \<Longrightarrow> gScore s k < \<infinity>"
    unfolding closed_inv_def by (auto simp del: not_infinity_eq enat_ord_simps(4))
  from this[OF fa _ b] em have "gScore s b < \<infinity>" by simp
  with step.hyps(2) show ?case by (simp add: passable_step_def)
qed

lemma grid_blocked_component:
  "connected grid_blocked (0, 1) p \<Longrightarrow> p = (0, 0) \<or> p = (0, 1)"
  unfolding connected_def
proof (induction rule: rtranclp_induct)
  case base
  show ?case by simp
next
  case (step a b)
  obtain r c where b: "b = (r, c)" by (cases b)
  from step.hyps(2) b have r: "r = 0" and c: "c < 4"
    by (auto simp: passable_step_def nodes_def grid_blocked_def)
  from c consider "c = 0" | "c = 1" | "c = 2" | "c = 3" by linarith
  then show ?case
  proof cases
    case 3
    with step.hyps(2) b r show ?thesis
      by (simp add: passable_step_def type_of_def grid_blocked_def)
  next
    case 4
    with step.hyps(2) step.IH b r show ?thesis
      by (auto simp: passable_step_def adjacent_def)
  qed (simp_all add: b r)
qed

lemma grid_blocked_connected: "connected grid_blocked (0, 1) (0, 0)"
  unfolding connected_def
  by (rule r_into_rtranclp)
     (simp add: passable_step_def adjacent_def nodes_def type_of_def grid_blocked_def)

text \<open>
  Claim C2. On a rectangular level with the start inside it, when no 4-connected walk
  over cells that are not obstacles leads from start to goal and no event asks for
  exit, \<open>find_path\<close> returns \<open>False\<close> (the loop terminates), and in the level it leaves
  every cell other than the start that such a walk reaches from the start is \<open>CLOSED\<close>.
\<close>

theorem unreachable_goal_not_found:
  assumes "rectangular lv tr tc" and "start \<in> nodes lv" and "no_exit evs"
    and "\<not> connected lv start goal"
  shows "\<exists>s. find_path lv tr tc start goal evs = Some (Return_False s) \<and>
           (\<forall>p. connected lv start p \<and> p \<noteq> start \<longrightarrow> type_of (level s) p = CLOSED)"
proof -
  from find_path_result[of lv tr tc start goal evs] assms(3) obtain sf ev where
    r: "reachable lv tr tc start goal sf" and
    st: "step lv tr tc start goal ev sf = Finish (find_path lv tr tc start goal evs)" and
    pl: "poll ev (visualize sf) \<noteq> None" by blast
  have sc: "score_inv lv tr tc start sf" using r by (rule reachable_score_inv)
  have qi: "queue_inv sf" using r by (rule reachable_queue_inv)
  have ci: "closed_inv lv tr tc start {} sf" using r by (rule reachable_closed_inv)
  from step_Finish[OF st] consider
    (empty) "openNodes sf = []" "find_path lv tr tc start goal evs = Some (Return_False sf)"
    | (exit) "poll ev (visualize sf) = None"
    | (key) e q where "get (openNodes sf) = Some (e, q)" "node e \<notin> openNodesHash sf"
    | (goal) "goal \<in> openNodesHash sf"
    by (elim disjE exE conjE) auto
  then show ?thesis
  proof cases
    case exit
    with pl show ?thesis by simp
  next
    case key
    from get_length[OF key(1)] have "e \<in> set (openNodes sf)" by simp
    with qi have "node e \<in> openNodesHash sf" unfolding queue_inv_def by blast
    with key(2) show ?thesis by simp
  next
    case goal
    with sc have "gScore sf goal < \<infinity>" unfolding score_inv_def by blast
    from scored_connected[OF sc this] assms(4) show ?thesis by simp
  next
    case empty
    with qi have em: "openNodesHash sf = {}" unfolding queue_inv_def by simp
    have "type_of (level sf) p = CLOSED" if "connected lv start p" "p \<noteq> start" for p
    proof -
      from connected_scored[OF assms(1,2) sc ci em that(1)] have "gScore sf p < \<infinity>" by simp
      moreover from ci have "\<And>n. gScore sf n < \<infinity> \<Longrightarrow> n \<noteq> start \<Longrightarrow>
          type_of (level sf) n = (if n \<in> openNodesHash sf then OPEN else CLOSED)"
        unfolding closed_inv_def by (auto simp del: not_infinity_eq enat_ord_simps(4))
      ultimately show ?thesis using that(2) em by simp
    qed
    with empty(2) show ?thesis by blast
  qed
qed

theorem unreachable_goal_not_found_witness:
  "rectangular grid_blocked 1 4 \<and> (0, 1) \<in> nodes grid_blocked \<and> no_exit [] \<and>
   \<not> connected grid_blocked (0, 1) (0, 3) \<and> connected grid_blocked (0, 1) (0, 0) \<and>
   (\<exists>s. find_path grid_blocked 1 4 (0, 1) (0, 3) [] = Some (Return_False s) \<and>
        type_of (level s) (0, 0) = CLOSED)"
proof -
  have 1: "rectangular grid_blocked 1 4" by (simp add: rectangular_def grid_blocked_def)
  have 2: "(0, 1) \<in> nodes grid_blocked" by (simp add: nodes_def grid_blocked_def)
  have 3: "no_exit []" by (simp add: no_exit_def)
  have 4: "\<not> connected grid_blocked (0, 1) (0, 3)" using grid_blocked_component[of "(0, 3)"] by auto
  from unreachable_goal_not_found[OF 1 2 3 4] grid_blocked_connected 1 2 3 4
  show ?thesis by auto
qed

section \<open>Length of the path returned\<close>

lemma maze_built:
  "make_level maze_text =
     Inr \<lparr> b_level = maze, b_start = Some (1, 0), b_goal = Some (3, 7), b_rows = 4, b_cols = 10 \<rparr>"
  by code_simp

lemma maze_run: "returned_path (find_path maze 4 10 (1, 0) (3, 7) []) = Some maze_path"
  by code_simp

lemma maze_walk_valid:
  "hd maze_walk = (1, 0) \<and> last maze_walk = (3, 7) \<and>
   successively (passable_step maze) maze_walk"
  by (simp add: maze_walk_def maze_def passable_step_def adjacent_def nodes_def type_of_def)

text \<open>
  Claim C1 says that whenever the goal is reachable the path returned has the length of
  a shortest 4-connected path. The code does not achieve it. When a neighbour that is
  already in \<open>openNodesHash\<close> is relaxed, its \<open>gScore\<close> and \<open>fScore\<close> drop but its queue
  entry keeps the priority it was pushed with, so a node of the shortest path can wait
  in the queue behind the goal. On the map \<open>maze_text\<close> the node \<open>(0, 5)\<close> is pushed with
  priority 15 and then relaxed from score 10 to 6; the search goes on with the entries
  of priority 13, pops the goal with score 13 and returns a path of 13 steps, while the
  walk along the top row has 11.
\<close>

theorem find_path_not_shortest:
  "make_level maze_text =
     Inr \<lparr> b_level = maze, b_start = Some (1, 0), b_goal = Some (3, 7), b_rows = 4, b_cols = 10 \<rparr> \<and>
   returned_path (find_path maze 4 10 (1, 0) (3, 7) []) = Some maze_path \<and>
   length maze_path = 14 \<and>
   hd maze_walk = (1, 0) \<and> last maze_walk = (3, 7) \<and>
   successively (passable_step maze) maze_walk \<and>
   length maze_walk = 12"
  using maze_built maze_run maze_walk_valid
  by (simp add: maze_path_def maze_walk_def)

end
